theory Spec2Isabelle
  imports Main "HOL-Library.Multiset"
begin

section \<open>Keys and the dimension-wise comparisons\<close>

text \<open>
  \<^verbatim>\<open>kdtree.hpp\<close> defines \<^verbatim>\<open>KDTree<std::tuple<KeyTypes...>, ValueType>\<close>. A key is a tuple of
  \<^verbatim>\<open>KeySize\<close> components; it is modelled as a list of components of one linearly ordered
  type, and \<^verbatim>\<open>KeySize\<close> is the parameter \<open>k\<close> of every function below
  (\<^verbatim>\<open>static_assert(KeySize > 0)\<close>). \<^verbatim>\<open>std::get<DIM>(a)\<close> is \<open>a ! DIM\<close>; the template
  argument \<^verbatim>\<open>DIM\<close> is always below \<^verbatim>\<open>KeySize\<close> in the source, and every key of the tree
  type has exactly \<^verbatim>\<open>KeySize\<close> components.
\<close>

type_synonym 'a key = "'a list"

text \<open>The two functors the source instantiates \<^verbatim>\<open>Compare\<close> with.\<close>

datatype compare = Less | Greater

text \<open>
  \<^verbatim>\<open>operator<\<close> of \<^verbatim>\<open>std::tuple\<close>: lexicographic, component by component.
\<close>

fun tuple_less :: "'a::linorder key \<Rightarrow> 'a key \<Rightarrow> bool" where
  "tuple_less (x # xs) (y # ys) =
     (if x < y then True else if y < x then False else tuple_less xs ys)"
| "tuple_less _ _ = False"

text \<open>\<^verbatim>\<open>compare(x, y)\<close> on two components, and on two whole keys.\<close>

fun compare_component :: "compare \<Rightarrow> 'a::linorder \<Rightarrow> 'a \<Rightarrow> bool" where
  "compare_component Less x y = (x < y)"
| "compare_component Greater x y = (y < x)"

fun compare_tuple :: "compare \<Rightarrow> 'a::linorder key \<Rightarrow> 'a key \<Rightarrow> bool" where
  "compare_tuple Less a b = tuple_less a b"
| "compare_tuple Greater a b = tuple_less b a"

definition compareKey :: "nat \<Rightarrow> compare \<Rightarrow> 'a::linorder key \<Rightarrow> 'a key \<Rightarrow> bool" where
  "compareKey DIM c a b =
     (if a ! DIM \<noteq> b ! DIM then compare_component c (a ! DIM) (b ! DIM)
      else compare_tuple c a b)"

definition strictLessKey :: "nat \<Rightarrow> compare \<Rightarrow> 'a::linorder key \<Rightarrow> 'a key \<Rightarrow> bool" where
  "strictLessKey DIM c a b = compare_component c (a ! DIM) (b ! DIM)"

section \<open>The tree and its recursive algorithms\<close>

text \<open>
  The protected member templates \<^verbatim>\<open>find\<close>, \<^verbatim>\<open>insert\<close>, \<^verbatim>\<open>findMin\<close>, \<^verbatim>\<open>findMax\<close>,
  \<^verbatim>\<open>erase\<close>, \<^verbatim>\<open>KDTree_helper\<close> and \<^verbatim>\<open>copyAll\<close> recurse over the child links only and
  never read \<^verbatim>\<open>parent\<close>. They are embedded over an algebraic tree: \<open>Null\<close> is
  \<^verbatim>\<open>nullptr\<close>, \<open>Node l key value r\<close> is a node with its two subtrees. A function that
  returns a \<^verbatim>\<open>Node *\<close> returns the subtree rooted there; a function that updates nodes in
  place and returns the (possibly replaced) node returns the updated subtree.
  \<^verbatim>\<open>treeSize\<close> is a \<^verbatim>\<open>size_t\<close> that counts the nodes; it is a \<open>nat\<close> here (the
  counter cannot wrap: it is the number of live nodes, lemma \<open>reachable_size\<close>).
\<close>

datatype ('a, 'v) tree = Null | Node "('a, 'v) tree" "'a key" 'v "('a, 'v) tree"

fun find_node :: "nat \<Rightarrow> nat \<Rightarrow> 'a::linorder key \<Rightarrow> ('a, 'v) tree \<Rightarrow> ('a, 'v) tree" where
  "find_node k DIM key Null = Null"
| "find_node k DIM key (Node l nk nv r) =
     (if nk = key then Node l nk nv r
      else if strictLessKey DIM Less key nk then find_node k ((DIM + 1) mod k) key l
      else find_node k ((DIM + 1) mod k) key r)"

fun insert_node ::
  "nat \<Rightarrow> nat \<Rightarrow> 'a::linorder key \<Rightarrow> 'v \<Rightarrow> ('a, 'v) tree \<Rightarrow> nat \<Rightarrow> bool \<times> ('a, 'v) tree \<times> nat" where
  "insert_node k DIM key value Null treeSize = (True, Node Null key value Null, treeSize + 1)"
| "insert_node k DIM key value (Node l nk nv r) treeSize =
     (if nk = key then (False, Node l nk value r, treeSize)
      else if strictLessKey DIM Less key nk then
        (case insert_node k ((DIM + 1) mod k) key value l treeSize of
           (b, l', treeSize') \<Rightarrow> (b, Node l' nk nv r, treeSize'))
      else
        (case insert_node k ((DIM + 1) mod k) key value r treeSize of
           (b, r', treeSize') \<Rightarrow> (b, Node l nk nv r', treeSize')))"

definition compareNode ::
  "nat \<Rightarrow> compare \<Rightarrow> ('a::linorder, 'v) tree \<Rightarrow> ('a, 'v) tree \<Rightarrow> ('a, 'v) tree" where
  "compareNode DIM c a b =
     (case a of Null \<Rightarrow> b
      | Node _ ak _ _ \<Rightarrow>
          (case b of Null \<Rightarrow> a
           | Node _ bk _ _ \<Rightarrow> if compareKey DIM c ak bk then a else b))"

fun findMin :: "nat \<Rightarrow> nat \<Rightarrow> nat \<Rightarrow> ('a::linorder, 'v) tree \<Rightarrow> ('a, 'v) tree" where
  "findMin k DIM_CMP DIM Null = Null"
| "findMin k DIM_CMP DIM (Node l nk nv r) =
     (let DIM_NEXT = (DIM + 1) mod k;
          mn = findMin k DIM_CMP DIM_NEXT l;
          mn = (if DIM_CMP \<noteq> DIM
                then compareNode DIM_CMP Less mn (findMin k DIM_CMP DIM_NEXT r)
                else mn)
      in compareNode DIM_CMP Less mn (Node l nk nv r))"

fun findMax :: "nat \<Rightarrow> nat \<Rightarrow> nat \<Rightarrow> ('a::linorder, 'v) tree \<Rightarrow> ('a, 'v) tree" where
  "findMax k DIM_CMP DIM Null = Null"
| "findMax k DIM_CMP DIM (Node l nk nv r) =
     (let DIM_NEXT = (DIM + 1) mod k;
          mx = findMax k DIM_CMP DIM_NEXT r;
          mx = (if DIM_CMP \<noteq> DIM
                then compareNode DIM_CMP Greater mx (findMax k DIM_CMP DIM_NEXT l)
                else mx)
      in compareNode DIM_CMP Greater mx (Node l nk nv r))"

text \<open>
  \<^verbatim>\<open>erase<DIM>(node, key)\<close>. The result is the updated subtree, the updated
  \<^verbatim>\<open>treeSize\<close>, and whether line 313 (\<^verbatim>\<open>if (treeSize == 0) root = nullptr\<close>) has reset the
  root. The source dereferences \<^verbatim>\<open>minNode\<close> and \<^verbatim>\<open>maxNode\<close> without a test; they are
  never null, since the subtree searched is not (lemmas \<open>findMin_Null\<close>, \<open>findMax_Null\<close>),
  so that branch of the model is never taken. \<^verbatim>\<open>key\<close> is a reference in the source and
  may alias the key of a node that is overwritten; it is not read after the overwrite.
\<close>

fun erase ::
  "nat \<Rightarrow> nat \<Rightarrow> ('a::linorder, 'v) tree \<Rightarrow> 'a key \<Rightarrow> nat \<Rightarrow> ('a, 'v) tree \<times> nat \<times> bool" where
  "erase k DIM Null key treeSize = (Null, treeSize, False)"
| "erase k DIM (Node l nk nv r) key treeSize =
     (if key = nk then
        (if l = Null \<and> r = Null then (Null, treeSize - 1, treeSize - 1 = 0)
         else if r \<noteq> Null then
           (case findMin k DIM ((DIM + 1) mod k) r of
              Null \<Rightarrow> (Node l nk nv r, treeSize, False)
            | Node _ mk mv _ \<Rightarrow>
                (case erase k ((DIM + 1) mod k) r mk treeSize of
                   (r', treeSize', reset) \<Rightarrow> (Node l mk mv r', treeSize', reset)))
         else
           (case findMax k DIM ((DIM + 1) mod k) l of
              Null \<Rightarrow> (Node l nk nv r, treeSize, False)
            | Node _ mk mv _ \<Rightarrow>
                (case erase k ((DIM + 1) mod k) l mk treeSize of
                   (l', treeSize', reset) \<Rightarrow> (Node l' mk mv r, treeSize', reset))))
      else if strictLessKey DIM Less key nk then
        (case erase k ((DIM + 1) mod k) l key treeSize of
           (l', treeSize', reset) \<Rightarrow> (Node l' nk nv r, treeSize', reset))
      else
        (case erase k ((DIM + 1) mod k) r key treeSize of
           (r', treeSize', reset) \<Rightarrow> (Node l nk nv r', treeSize', reset)))"

text \<open>
  The runtime dispatch \<^verbatim>\<open>findMinDynamic<DIM>(dim)\<close> steps \<^verbatim>\<open>DIM\<close> through the dimensions
  until it meets \<^verbatim>\<open>dim % KeySize\<close>. The recursion is over template instances, not over
  data, so it is a partial function: \<open>None\<close> is "does not return".
\<close>

partial_function (option) findMinDynamic ::
  "nat \<Rightarrow> nat \<Rightarrow> nat \<Rightarrow> ('a::linorder, 'v) tree \<Rightarrow> ('a, 'v) tree option" where
  "findMinDynamic k DIM dim root =
     (let dim = (if dim \<ge> k then dim mod k else dim)
      in if dim = DIM then Some (findMin k DIM 0 root)
         else findMinDynamic k ((DIM + 1) mod k) dim root)"

declare findMinDynamic.simps [code]

partial_function (option) findMaxDynamic ::
  "nat \<Rightarrow> nat \<Rightarrow> nat \<Rightarrow> ('a::linorder, 'v) tree \<Rightarrow> ('a, 'v) tree option" where
  "findMaxDynamic k DIM dim root =
     (let dim = (if dim \<ge> k then dim mod k else dim)
      in if dim = DIM then Some (findMax k DIM 0 root)
         else findMaxDynamic k ((DIM + 1) mod k) dim root)"

declare findMaxDynamic.simps [code]

subsection \<open>Bulk construction and copying\<close>

definition compareData :: "nat \<Rightarrow> 'a::linorder key \<times> 'v \<Rightarrow> 'a key \<times> 'v \<Rightarrow> bool" where
  "compareData DIM a b = compareKey DIM Less (fst a) (fst b)"

text \<open>
  \<^verbatim>\<open>std::stable_sort(first, last, cmp)\<close>: a sort that keeps the input order of elements
  that \<^verbatim>\<open>cmp\<close> does not separate; insertion from the right is one.
\<close>

fun insort_by :: "('e \<Rightarrow> 'e \<Rightarrow> bool) \<Rightarrow> 'e \<Rightarrow> 'e list \<Rightarrow> 'e list" where
  "insort_by cmp x [] = [x]"
| "insort_by cmp x (y # ys) = (if cmp y x then y # insort_by cmp x ys else x # y # ys)"

definition stable_sort :: "('e \<Rightarrow> 'e \<Rightarrow> bool) \<Rightarrow> 'e list \<Rightarrow> 'e list" where
  "stable_sort cmp v = foldr (insort_by cmp) v []"

text \<open>
  \<^verbatim>\<open>std::unique(first, last, pred)\<close>: each element is compared with the last element kept
  and dropped when \<^verbatim>\<open>pred\<close> holds; the result is the kept prefix.
\<close>

fun unique :: "('e \<Rightarrow> 'e \<Rightarrow> bool) \<Rightarrow> 'e list \<Rightarrow> 'e list" where
  "unique pred [] = []"
| "unique pred [x] = [x]"
| "unique pred (x # y # ys) = (if pred x y then unique pred (x # ys) else x # unique pred (y # ys))"

text \<open>
  \<^verbatim>\<open>std::nth_element(first, nth, last, cmp)\<close> permutes the range so that position \<^verbatim>\<open>nth\<close>
  holds the element a full sort would put there, nothing before it is greater and nothing
  after it is less. The standard leaves the order inside the two parts open; a fully
  sorted range is one permitted outcome, and it is the one modelled. The constructor
  below only calls it on vectors whose keys are pairwise distinct, where \<^verbatim>\<open>cmp\<close> is a
  strict linear order, so the element at \<^verbatim>\<open>nth\<close> and the sets in front of it and behind
  it are the same for every permitted outcome, and so is the tree that is built
  (lemma \<open>KDTree_any_nth_element\<close>).
\<close>

definition nth_element :: "nat \<Rightarrow> ('e \<Rightarrow> 'e \<Rightarrow> bool) \<Rightarrow> 'e list \<Rightarrow> 'e list" where
  "nth_element n cmp v = stable_sort cmp v"

lemma length_insort_by [simp]: "length (insort_by cmp x ys) = Suc (length ys)"
  by (induction ys) auto

lemma length_stable_sort [simp]: "length (stable_sort cmp v) = length v"
  by (induction v) (auto simp: stable_sort_def)

lemma length_nth_element [simp]: "length (nth_element n cmp v) = length v"
  by (simp add: nth_element_def)

lemma median_index_less: "v \<noteq> [] \<Longrightarrow> (length v - Suc 0) div 2 < length v"
  by (cases v) (simp_all add: less_Suc_eq_le)

function KDTree_helper :: "nat \<Rightarrow> nat \<Rightarrow> ('a::linorder key \<times> 'v) list \<Rightarrow> ('a, 'v) tree" where
  "KDTree_helper k DIM v =
     (if v = [] then Null
      else
        let m = (length v - 1) div 2;
            v' = nth_element m (compareData DIM) v;
            left = take m v';
            right = drop (m + 1) v'
        in Node (KDTree_helper k ((DIM + 1) mod k) left) (fst (v' ! m)) (snd (v' ! m))
                (KDTree_helper k ((DIM + 1) mod k) right))"
  by pat_completeness auto
termination
  by (relation "measure (\<lambda>(k, DIM, v). length v)") (auto simp: median_index_less)

declare KDTree_helper.simps [simp del]

fun copyAll :: "('a, 'v) tree \<Rightarrow> ('a, 'v) tree" where
  "copyAll Null = Null"
| "copyAll (Node l nk nv r) = Node (copyAll l) nk nv (copyAll r)"

subsection \<open>The public interface\<close>

record ('a, 'v) kdtree =
  root :: "('a, 'v) tree"
  treeSize :: nat

text \<open>\<^verbatim>\<open>KDTree() = default\<close>.\<close>

definition KDTree_default :: "('a, 'v) kdtree" where
  "KDTree_default = \<lparr>root = Null, treeSize = 0\<rparr>"

text \<open>
  \<^verbatim>\<open>explicit KDTree(std::vector<std::pair<Key, Value>> v)\<close>. \<^verbatim>\<open>std::unique\<close> runs over the
  reverse iterators, so it keeps the last element of every run; \<^verbatim>\<open>v.assign(it.base(), v.end())\<close>
  keeps exactly the elements \<^verbatim>\<open>std::unique\<close> kept, in forward order.
\<close>

definition KDTree :: "nat \<Rightarrow> ('a::linorder key \<times> 'v) list \<Rightarrow> ('a, 'v) kdtree" where
  "KDTree k v =
     (let v = stable_sort (compareData 0) v;
          v = rev (unique (\<lambda>a b. fst a = fst b) (rev v))
      in \<lparr>root = KDTree_helper k 0 v, treeSize = length v\<rparr>)"

text \<open>\<^verbatim>\<open>KDTree(const KDTree &that)\<close>; \<^verbatim>\<open>operator=\<close> builds the same value.\<close>

definition KDTree_copy :: "('a, 'v) kdtree \<Rightarrow> ('a, 'v) kdtree" where
  "KDTree_copy that = \<lparr>root = copyAll (root that), treeSize = treeSize that\<rparr>"

text \<open>
  A cursor \<^verbatim>\<open>Iterator(this, node)\<close> on this level is the subtree at \<^verbatim>\<open>node\<close>; \<^verbatim>\<open>end()\<close> is
  \<open>Null\<close>.
\<close>

definition tree_find :: "nat \<Rightarrow> 'a::linorder key \<Rightarrow> ('a, 'v) kdtree \<Rightarrow> ('a, 'v) tree" where
  "tree_find k key t = find_node k 0 key (root t)"

definition tree_insert :: "nat \<Rightarrow> 'a::linorder key \<Rightarrow> 'v \<Rightarrow> ('a, 'v) kdtree \<Rightarrow> ('a, 'v) kdtree" where
  "tree_insert k key value t =
     (case insert_node k 0 key value (root t) (treeSize t) of
        (b, root', treeSize') \<Rightarrow> \<lparr>root = root', treeSize = treeSize'\<rparr>)"

text \<open>\<^verbatim>\<open>template<size_t DIM> Iterator findMin()\<close> and \<^verbatim>\<open>Iterator findMin(size_t dim)\<close>.\<close>

definition tree_findMin_static :: "nat \<Rightarrow> nat \<Rightarrow> ('a::linorder, 'v) kdtree \<Rightarrow> ('a, 'v) tree" where
  "tree_findMin_static k DIM t = findMin k DIM 0 (root t)"

definition tree_findMin :: "nat \<Rightarrow> nat \<Rightarrow> ('a::linorder, 'v) kdtree \<Rightarrow> ('a, 'v) tree option" where
  "tree_findMin k dim t = findMinDynamic k 0 dim (root t)"

definition tree_findMax_static :: "nat \<Rightarrow> nat \<Rightarrow> ('a::linorder, 'v) kdtree \<Rightarrow> ('a, 'v) tree" where
  "tree_findMax_static k DIM t = findMax k DIM 0 (root t)"

definition tree_findMax :: "nat \<Rightarrow> nat \<Rightarrow> ('a::linorder, 'v) kdtree \<Rightarrow> ('a, 'v) tree option" where
  "tree_findMax k dim t = findMaxDynamic k 0 dim (root t)"

text \<open>
  \<^verbatim>\<open>bool erase(const Key &key)\<close> drops the pointer \<^verbatim>\<open>erase<0>(root, key)\<close> returns. The
  nodes are updated in place, so \<^verbatim>\<open>root\<close> still points to the updated root node unless
  that node itself was deleted. Then line 313 has set \<^verbatim>\<open>root = nullptr\<close> if the counter
  reached zero; otherwise \<^verbatim>\<open>root\<close> is left pointing to freed memory, which is \<open>None\<close>
  here.
\<close>

definition tree_erase ::
  "nat \<Rightarrow> 'a::linorder key \<Rightarrow> ('a, 'v) kdtree \<Rightarrow> (bool \<times> ('a, 'v) kdtree) option" where
  "tree_erase k key t =
     (let prevSize = treeSize t in
      case erase k 0 (root t) key (treeSize t) of
        (root', treeSize', reset) \<Rightarrow>
          if reset then Some (prevSize > treeSize', \<lparr>root = Null, treeSize = treeSize'\<rparr>)
          else if root' = Null \<and> root t \<noteq> Null then None
          else Some (prevSize > treeSize', \<lparr>root = root', treeSize = treeSize'\<rparr>))"

definition tree_size :: "('a, 'v) kdtree \<Rightarrow> nat" where
  "tree_size t = treeSize t"

section \<open>Properties of the recursive algorithms\<close>

text \<open>The entries of a tree, in the order of an in-order walk, and its shape without the values.\<close>

fun entries :: "('a, 'v) tree \<Rightarrow> ('a key \<times> 'v) list" where
  "entries Null = []"
| "entries (Node l nk nv r) = entries l @ (nk, nv) # entries r"

definition keys :: "('a, 'v) tree \<Rightarrow> 'a key list" where
  "keys t = map fst (entries t)"

definition skeleton :: "('a, 'v) tree \<Rightarrow> ('a, unit) tree" where
  "skeleton t = map_tree (\<lambda>x. x) (\<lambda>_. ()) t"

lemma keys_simps [simp]:
  "keys Null = []"
  "keys (Node l nk nv r) = keys l @ nk # keys r"
  by (simp_all add: keys_def)

subsection \<open>Insert followed by find\<close>

lemma find_node_after_insert:
  "insert_node k DIM key v t n = (b, t', n') \<Longrightarrow> \<exists>l r. find_node k DIM key t' = Node l key v r"
proof (induction t arbitrary: DIM b t' n')
  case Null
  then show ?case by auto
next
  case (Node l nk nv r)
  show ?case
  proof (cases "nk = key")
    case True
    with Node.prems show ?thesis by auto
  next
    case False
    show ?thesis
    proof (cases "strictLessKey DIM Less key nk")
      case True
      then obtain l' where l': "insert_node k ((DIM + 1) mod k) key v l n = (b, l', n')"
        and t': "t' = Node l' nk nv r"
        using Node.prems False by (auto split: prod.splits)
      from Node.IH(1) [OF l'] show ?thesis
        using False True t' by auto
    next
      case right: False
      then obtain r' where r': "insert_node k ((DIM + 1) mod k) key v r n = (b, r', n')"
        and t': "t' = Node l nk nv r'"
        using Node.prems False by (auto split: prod.splits)
      from Node.IH(2) [OF r'] show ?thesis
        using False right t' by auto
    qed
  qed
qed

lemma insert_node_present:
  "find_node k DIM key t \<noteq> Null \<Longrightarrow> insert_node k DIM key v t n = (b, t', n') \<Longrightarrow>
   \<not> b \<and> n' = n \<and> skeleton t' = skeleton t"
proof (induction t arbitrary: DIM b t' n')
  case Null
  then show ?case by simp
next
  case (Node l nk nv r)
  show ?case
  proof (cases "nk = key")
    case True
    with Node.prems show ?thesis by (auto simp: skeleton_def)
  next
    case False
    show ?thesis
    proof (cases "strictLessKey DIM Less key nk")
      case True
      then obtain l' where l': "insert_node k ((DIM + 1) mod k) key v l n = (b, l', n')"
        and t': "t' = Node l' nk nv r"
        using Node.prems False by (auto split: prod.splits)
      have "find_node k ((DIM + 1) mod k) key l \<noteq> Null"
        using Node.prems(1) False True by simp
      from Node.IH(1) [OF this l'] show ?thesis
        using t' by (simp add: skeleton_def)
    next
      case right: False
      then obtain r' where r': "insert_node k ((DIM + 1) mod k) key v r n = (b, r', n')"
        and t': "t' = Node l nk nv r'"
        using Node.prems False by (auto split: prod.splits)
      have "find_node k ((DIM + 1) mod k) key r \<noteq> Null"
        using Node.prems(1) False right by simp
      from Node.IH(2) [OF this r'] show ?thesis
        using t' by (simp add: skeleton_def)
    qed
  qed
qed

text \<open>
  C4. For every tree and key, after \<^verbatim>\<open>insert(key, v1)\<close> and then \<^verbatim>\<open>insert(key, v2)\<close>,
  \<^verbatim>\<open>find(key)\<close> returns a cursor to a node that holds \<open>key\<close> and \<open>v2\<close>; the second insert
  leaves \<^verbatim>\<open>size()\<close> unchanged and changes neither the shape of the tree nor any key.
\<close>

theorem insert_twice_find:
  "(\<exists>l r. tree_find k key (tree_insert k key v2 (tree_insert k key v1 t)) = Node l key v2 r)
   \<and> tree_size (tree_insert k key v2 (tree_insert k key v1 t)) = tree_size (tree_insert k key v1 t)
   \<and> skeleton (root (tree_insert k key v2 (tree_insert k key v1 t)))
       = skeleton (root (tree_insert k key v1 t))"
proof -
  obtain b1 r1 n1 where i1: "insert_node k 0 key v1 (root t) (treeSize t) = (b1, r1, n1)"
    by (cases "insert_node k 0 key v1 (root t) (treeSize t)") auto
  have t1: "tree_insert k key v1 t = \<lparr>root = r1, treeSize = n1\<rparr>"
    by (simp add: tree_insert_def i1)
  have present: "find_node k 0 key r1 \<noteq> Null"
    using find_node_after_insert [OF i1] by auto
  obtain b2 r2 n2 where i2: "insert_node k 0 key v2 r1 n1 = (b2, r2, n2)"
    by (cases "insert_node k 0 key v2 r1 n1") auto
  have same: "n2 = n1" "skeleton r2 = skeleton r1"
    using insert_node_present [OF present i2] by simp_all
  have t2: "tree_insert k key v2 \<lparr>root = r1, treeSize = n1\<rparr> = \<lparr>root = r2, treeSize = n2\<rparr>"
    by (simp add: tree_insert_def i2)
  have "\<exists>l r. find_node k 0 key r2 = Node l key v2 r"
    using find_node_after_insert [OF i2] .
  then show ?thesis
    using same by (simp add: t1 t2 tree_find_def tree_size_def)
qed

subsection \<open>Extremum queries on the empty tree\<close>

lemma findMinDynamic_upward:
  "DIM \<le> j \<Longrightarrow> j < k \<Longrightarrow> findMinDynamic k DIM j t = Some (findMin k j 0 t)"
proof (induction "j - DIM" arbitrary: DIM)
  case 0
  then show ?case by (subst findMinDynamic.simps) simp
next
  case (Suc n)
  then have "findMinDynamic k (DIM + 1) j t = Some (findMin k j 0 t)"
    by simp
  with Suc.hyps(2) Suc.prems show ?case
    by (subst findMinDynamic.simps) simp
qed

lemma findMinDynamic_wrap:
  "j < DIM \<Longrightarrow> DIM < k \<Longrightarrow> findMinDynamic k DIM j t = Some (findMin k j 0 t)"
proof (induction "k - DIM" arbitrary: DIM)
  case 0
  then show ?case by simp
next
  case (Suc n)
  show ?case
  proof (cases "DIM + 1 = k")
    case True
    then have "findMinDynamic k ((DIM + 1) mod k) j t = Some (findMin k j 0 t)"
      using Suc.prems findMinDynamic_upward [of 0 j k t] by simp
    with Suc.prems show ?thesis
      by (subst findMinDynamic.simps) simp
  next
    case False
    with Suc.prems have lt: "DIM + 1 < k" by simp
    then have "findMinDynamic k (DIM + 1) j t = Some (findMin k j 0 t)"
      using Suc.hyps Suc.prems by simp
    with Suc.prems lt show ?thesis
      by (subst findMinDynamic.simps) simp
  qed
qed

lemma findMinDynamic_eq:
  assumes "0 < k" "DIM < k"
  shows "findMinDynamic k DIM dim t = Some (findMin k (dim mod k) 0 t)"
proof -
  have below: "findMinDynamic k D j t = Some (findMin k j 0 t)" if "j < k" "D < k" for D j
    using that findMinDynamic_upward [of D j k t] findMinDynamic_wrap [of j D k t]
    by (cases "D \<le> j") simp_all
  show ?thesis
  proof (cases "dim < k")
    case True
    then show ?thesis using below [of dim DIM] assms by simp
  next
    case False
    have j: "dim mod k < k" using assms by simp
    have next_lt: "(DIM + 1) mod k < k" using assms by simp
    show ?thesis
      using False below [OF j next_lt] below [OF j assms(2)]
      by (subst findMinDynamic.simps) (simp add: Let_def)
  qed
qed

lemma findMaxDynamic_upward:
  "DIM \<le> j \<Longrightarrow> j < k \<Longrightarrow> findMaxDynamic k DIM j t = Some (findMax k j 0 t)"
proof (induction "j - DIM" arbitrary: DIM)
  case 0
  then show ?case by (subst findMaxDynamic.simps) simp
next
  case (Suc n)
  then have "findMaxDynamic k (DIM + 1) j t = Some (findMax k j 0 t)"
    by simp
  with Suc.hyps(2) Suc.prems show ?case
    by (subst findMaxDynamic.simps) simp
qed

lemma findMaxDynamic_wrap:
  "j < DIM \<Longrightarrow> DIM < k \<Longrightarrow> findMaxDynamic k DIM j t = Some (findMax k j 0 t)"
proof (induction "k - DIM" arbitrary: DIM)
  case 0
  then show ?case by simp
next
  case (Suc n)
  show ?case
  proof (cases "DIM + 1 = k")
    case True
    then have "findMaxDynamic k ((DIM + 1) mod k) j t = Some (findMax k j 0 t)"
      using Suc.prems findMaxDynamic_upward [of 0 j k t] by simp
    with Suc.prems show ?thesis
      by (subst findMaxDynamic.simps) simp
  next
    case False
    with Suc.prems have lt: "DIM + 1 < k" by simp
    then have "findMaxDynamic k (DIM + 1) j t = Some (findMax k j 0 t)"
      using Suc.hyps Suc.prems by simp
    with Suc.prems lt show ?thesis
      by (subst findMaxDynamic.simps) simp
  qed
qed

lemma findMaxDynamic_eq:
  assumes "0 < k" "DIM < k"
  shows "findMaxDynamic k DIM dim t = Some (findMax k (dim mod k) 0 t)"
proof -
  have below: "findMaxDynamic k D j t = Some (findMax k j 0 t)" if "j < k" "D < k" for D j
    using that findMaxDynamic_upward [of D j k t] findMaxDynamic_wrap [of j D k t]
    by (cases "D \<le> j") simp_all
  show ?thesis
  proof (cases "dim < k")
    case True
    then show ?thesis using below [of dim DIM] assms by simp
  next
    case False
    have j: "dim mod k < k" using assms by simp
    have next_lt: "(DIM + 1) mod k < k" using assms by simp
    show ?thesis
      using False below [OF j next_lt] below [OF j assms(2)]
      by (subst findMaxDynamic.simps) (simp add: Let_def)
  qed
qed

text \<open>
  C9. On the empty tree \<^verbatim>\<open>findMin\<close> and \<^verbatim>\<open>findMax\<close> return the end cursor for every
  dimension argument, both with the dimension as a template argument and with the
  dimension as a runtime argument (which returns, for every \<open>dim\<close>).
\<close>

theorem findMin_findMax_empty:
  assumes "0 < k" "root t = Null"
  shows "tree_findMin_static k DIM t = Null \<and> tree_findMax_static k DIM t = Null
         \<and> tree_findMin k dim t = Some Null \<and> tree_findMax k dim t = Some Null"
  using assms
  by (simp add: tree_findMin_static_def tree_findMax_static_def tree_findMin_def
      tree_findMax_def findMinDynamic_eq findMaxDynamic_eq)

theorem findMin_findMax_empty_witness:
  "(0::nat) < 2 \<and> root (KDTree_default :: (int, string) kdtree) = Null
   \<and> tree_findMin_static 2 1 (KDTree_default :: (int, string) kdtree) = Null
   \<and> tree_findMax_static 2 1 (KDTree_default :: (int, string) kdtree) = Null
   \<and> tree_findMin 2 5 (KDTree_default :: (int, string) kdtree) = Some Null
   \<and> tree_findMax 2 5 (KDTree_default :: (int, string) kdtree) = Some Null"
  using findMin_findMax_empty [of 2 "KDTree_default :: (int, string) kdtree" 1 5]
  by (simp add: KDTree_default_def)

subsection \<open>The order the operations keep, and the extremum queries\<close>

text \<open>
  What every operation below keeps: seen from a node that splits on dimension \<open>DIM\<close>, no
  key of its left subtree is greater on \<open>DIM\<close> and no key of its right subtree is less on
  \<open>DIM\<close>; the children split on the next dimension.
\<close>

fun kd_ordered :: "nat \<Rightarrow> nat \<Rightarrow> ('a::linorder, 'v) tree \<Rightarrow> bool" where
  "kd_ordered k DIM Null = True"
| "kd_ordered k DIM (Node l nk nv r) =
     ((\<forall>x \<in> set (keys l). x ! DIM \<le> nk ! DIM) \<and> (\<forall>x \<in> set (keys r). nk ! DIM \<le> x ! DIM)
      \<and> kd_ordered k ((DIM + 1) mod k) l \<and> kd_ordered k ((DIM + 1) mod k) r)"

text \<open>\<open>m\<close> is a node of least (greatest) component \<open>c\<close> among the entries \<open>E\<close>.\<close>

definition is_min_of :: "nat \<Rightarrow> ('a::linorder key \<times> 'v) set \<Rightarrow> ('a, 'v) tree \<Rightarrow> bool" where
  "is_min_of c E m =
     (case m of Null \<Rightarrow> E = {}
      | Node _ mk mv _ \<Rightarrow> (mk, mv) \<in> E \<and> (\<forall>e \<in> E. mk ! c \<le> fst e ! c))"

definition is_max_of :: "nat \<Rightarrow> ('a::linorder key \<times> 'v) set \<Rightarrow> ('a, 'v) tree \<Rightarrow> bool" where
  "is_max_of c E m =
     (case m of Null \<Rightarrow> E = {}
      | Node _ mk mv _ \<Rightarrow> (mk, mv) \<in> E \<and> (\<forall>e \<in> E. fst e ! c \<le> mk ! c))"

lemma compareKey_Less_le: "compareKey c Less a b \<Longrightarrow> a ! c \<le> b ! c"
  by (auto simp: compareKey_def split: if_splits)

lemma not_compareKey_Less_le: "\<not> compareKey c Less a b \<Longrightarrow> b ! c \<le> a ! c"
  by (auto simp: compareKey_def split: if_splits)

lemma compareKey_Greater_le: "compareKey c Greater a b \<Longrightarrow> b ! c \<le> a ! c"
  by (auto simp: compareKey_def split: if_splits)

lemma not_compareKey_Greater_le: "\<not> compareKey c Greater a b \<Longrightarrow> a ! c \<le> b ! c"
  by (auto simp: compareKey_def split: if_splits)

lemma compareNode_min:
  assumes "is_min_of c A a" "is_min_of c B b"
  shows "is_min_of c (A \<union> B) (compareNode c Less a b)"
proof (cases a)
  case Null
  with assms show ?thesis by (simp add: compareNode_def is_min_of_def)
next
  case a: (Node al ak av ar)
  show ?thesis
  proof (cases b)
    case Null
    with assms a show ?thesis by (simp add: compareNode_def is_min_of_def)
  next
    case b: (Node bl bk bv br)
    show ?thesis
    proof (cases "compareKey c Less ak bk")
      case True
      then have "ak ! c \<le> bk ! c" by (rule compareKey_Less_le)
      with assms a b True show ?thesis
        by (fastforce simp: compareNode_def is_min_of_def)
    next
      case False
      then have "bk ! c \<le> ak ! c" by (rule not_compareKey_Less_le)
      with assms a b False show ?thesis
        by (fastforce simp: compareNode_def is_min_of_def)
    qed
  qed
qed

lemma compareNode_max:
  assumes "is_max_of c A a" "is_max_of c B b"
  shows "is_max_of c (A \<union> B) (compareNode c Greater a b)"
proof (cases a)
  case Null
  with assms show ?thesis by (simp add: compareNode_def is_max_of_def)
next
  case a: (Node al ak av ar)
  show ?thesis
  proof (cases b)
    case Null
    with assms a show ?thesis by (simp add: compareNode_def is_max_of_def)
  next
    case b: (Node bl bk bv br)
    show ?thesis
    proof (cases "compareKey c Greater ak bk")
      case True
      then have "bk ! c \<le> ak ! c" by (rule compareKey_Greater_le)
      with assms a b True show ?thesis
        by (fastforce simp: compareNode_def is_max_of_def)
    next
      case False
      then have "ak ! c \<le> bk ! c" by (rule not_compareKey_Greater_le)
      with assms a b False show ?thesis
        by (fastforce simp: compareNode_def is_max_of_def)
    qed
  qed
qed

lemma is_min_of_self: "is_min_of c {(nk, nv)} (Node l nk nv r)"
  by (simp add: is_min_of_def)

lemma is_max_of_self: "is_max_of c {(nk, nv)} (Node l nk nv r)"
  by (simp add: is_max_of_def)

lemma is_min_of_extend:
  assumes "is_min_of c A m" "\<forall>e \<in> B. nk ! c \<le> fst e ! c" "(nk, nv) \<in> A"
  shows "is_min_of c (A \<union> B) m"
proof (cases m)
  case Null
  with assms show ?thesis by (simp add: is_min_of_def)
next
  case (Node ml mk mv mr)
  with assms have "mk ! c \<le> nk ! c" by (fastforce simp: is_min_of_def)
  with assms Node show ?thesis by (fastforce simp: is_min_of_def)
qed

lemma is_max_of_extend:
  assumes "is_max_of c A m" "\<forall>e \<in> B. fst e ! c \<le> nk ! c" "(nk, nv) \<in> A"
  shows "is_max_of c (A \<union> B) m"
proof (cases m)
  case Null
  with assms show ?thesis by (simp add: is_max_of_def)
next
  case (Node ml mk mv mr)
  with assms have "nk ! c \<le> mk ! c" by (fastforce simp: is_max_of_def)
  with assms Node show ?thesis by (fastforce simp: is_max_of_def)
qed

lemma findMin_is_min:
  "kd_ordered k DIM t \<Longrightarrow> is_min_of c (set (entries t)) (findMin k c DIM t)"
proof (induction t arbitrary: DIM)
  case Null
  then show ?case by (simp add: is_min_of_def)
next
  case (Node l nk nv r)
  let ?n = "(DIM + 1) mod k"
  have L: "is_min_of c (set (entries l)) (findMin k c ?n l)"
    and R: "is_min_of c (set (entries r)) (findMin k c ?n r)"
    using Node by simp_all
  show ?case
  proof (cases "c = DIM")
    case True
    have "is_min_of c (set (entries l) \<union> {(nk, nv)})
            (compareNode c Less (findMin k c ?n l) (Node l nk nv r))"
      by (rule compareNode_min [OF L is_min_of_self])
    moreover have "\<forall>e \<in> set (entries r). nk ! c \<le> fst e ! c"
      using Node.prems True by (auto simp: keys_def)
    ultimately have "is_min_of c ((set (entries l) \<union> {(nk, nv)}) \<union> set (entries r))
            (compareNode c Less (findMin k c ?n l) (Node l nk nv r))"
      by (rule is_min_of_extend [where nk = nk and nv = nv]) simp
    with True show ?thesis by (simp add: Let_def Un_commute Un_left_commute)
  next
    case False
    have "is_min_of c ((set (entries l) \<union> set (entries r)) \<union> {(nk, nv)})
            (compareNode c Less (compareNode c Less (findMin k c ?n l) (findMin k c ?n r))
               (Node l nk nv r))"
      by (intro compareNode_min L R is_min_of_self)
    with False show ?thesis by (simp add: Let_def Un_commute Un_left_commute)
  qed
qed

lemma findMax_is_max:
  "kd_ordered k DIM t \<Longrightarrow> is_max_of c (set (entries t)) (findMax k c DIM t)"
proof (induction t arbitrary: DIM)
  case Null
  then show ?case by (simp add: is_max_of_def)
next
  case (Node l nk nv r)
  let ?n = "(DIM + 1) mod k"
  have L: "is_max_of c (set (entries l)) (findMax k c ?n l)"
    and R: "is_max_of c (set (entries r)) (findMax k c ?n r)"
    using Node by simp_all
  show ?case
  proof (cases "c = DIM")
    case True
    have "is_max_of c (set (entries r) \<union> {(nk, nv)})
            (compareNode c Greater (findMax k c ?n r) (Node l nk nv r))"
      by (rule compareNode_max [OF R is_max_of_self])
    moreover have "\<forall>e \<in> set (entries l). fst e ! c \<le> nk ! c"
      using Node.prems True by (auto simp: keys_def)
    ultimately have "is_max_of c ((set (entries r) \<union> {(nk, nv)}) \<union> set (entries l))
            (compareNode c Greater (findMax k c ?n r) (Node l nk nv r))"
      by (rule is_max_of_extend [where nk = nk and nv = nv]) simp
    with True show ?thesis by (simp add: Let_def Un_commute Un_left_commute)
  next
    case False
    have "is_max_of c ((set (entries r) \<union> set (entries l)) \<union> {(nk, nv)})
            (compareNode c Greater (compareNode c Greater (findMax k c ?n r) (findMax k c ?n l))
               (Node l nk nv r))"
      by (intro compareNode_max L R is_max_of_self)
    with False show ?thesis by (simp add: Let_def Un_commute Un_left_commute)
  qed
qed

lemma compareNode_choice: "compareNode c cm a b = a \<or> compareNode c cm a b = b"
  by (auto simp: compareNode_def split: tree.splits)

lemma compareNode_Null [simp]: "compareNode c cm a b = Null \<longleftrightarrow> a = Null \<and> b = Null"
  by (auto simp: compareNode_def split: tree.splits)

lemma findMin_Null [simp]: "findMin k c DIM t = Null \<longleftrightarrow> t = Null"
  by (cases t) (simp_all add: Let_def)

lemma findMax_Null [simp]: "findMax k c DIM t = Null \<longleftrightarrow> t = Null"
  by (cases t) (simp_all add: Let_def)

lemma findMin_in: "findMin k c DIM t = Node ml mk mv mr \<Longrightarrow> (mk, mv) \<in> set (entries t)"
proof (induction t arbitrary: DIM)
  case Null
  then show ?case by simp
next
  case (Node l nk nv r)
  let ?a = "findMin k c ((DIM + 1) mod k) l" and ?b = "findMin k c ((DIM + 1) mod k) r"
  have "findMin k c DIM (Node l nk nv r) \<in> {?a, ?b, Node l nk nv r}"
    using compareNode_choice [of c Less ?a ?b]
      compareNode_choice [of c Less ?a "Node l nk nv r"]
      compareNode_choice [of c Less "compareNode c Less ?a ?b" "Node l nk nv r"]
    by (auto simp: Let_def)
  with Node.prems have "?a = Node ml mk mv mr \<or> ?b = Node ml mk mv mr \<or> (nk = mk \<and> nv = mv)"
    by auto
  with Node.IH show ?case by auto
qed

lemma findMax_in: "findMax k c DIM t = Node ml mk mv mr \<Longrightarrow> (mk, mv) \<in> set (entries t)"
proof (induction t arbitrary: DIM)
  case Null
  then show ?case by simp
next
  case (Node l nk nv r)
  let ?a = "findMax k c ((DIM + 1) mod k) r" and ?b = "findMax k c ((DIM + 1) mod k) l"
  have "findMax k c DIM (Node l nk nv r) \<in> {?a, ?b, Node l nk nv r}"
    using compareNode_choice [of c Greater ?a ?b]
      compareNode_choice [of c Greater ?a "Node l nk nv r"]
      compareNode_choice [of c Greater "compareNode c Greater ?a ?b" "Node l nk nv r"]
    by (auto simp: Let_def)
  with Node.prems have "?a = Node ml mk mv mr \<or> ?b = Node ml mk mv mr \<or> (nk = mk \<and> nv = mv)"
    by auto
  with Node.IH show ?case by auto
qed

text \<open>
  C5. For every non-empty tree that is ordered as above (every tree the constructors,
  \<^verbatim>\<open>insert\<close> and \<^verbatim>\<open>erase\<close> build is: \<open>reachable_ordered\<close> below) and every dimension
  \<open>d < k\<close>, \<^verbatim>\<open>findMax(d)\<close> returns a node of the tree whose key is, on component \<open>d\<close>, at
  least that of every key of the tree, and \<^verbatim>\<open>findMin(d)\<close> returns a node of the tree whose
  key is at most that of every key; the template variant and the runtime variant return
  the same node.
\<close>

theorem findMax_findMin_extremum:
  assumes "kd_ordered k 0 (root t)" "root t \<noteq> Null" "d < k"
  shows "(\<exists>l mk mv r. tree_findMax_static k d t = Node l mk mv r
            \<and> tree_findMax k d t = Some (Node l mk mv r)
            \<and> (mk, mv) \<in> set (entries (root t))
            \<and> (\<forall>x \<in> set (keys (root t)). x ! d \<le> mk ! d))
       \<and> (\<exists>l mk mv r. tree_findMin_static k d t = Node l mk mv r
            \<and> tree_findMin k d t = Some (Node l mk mv r)
            \<and> (mk, mv) \<in> set (entries (root t))
            \<and> (\<forall>x \<in> set (keys (root t)). mk ! d \<le> x ! d))"
proof -
  from assms(2) have nonempty: "set (entries (root t)) \<noteq> {}"
    by (cases "root t") simp_all
  have dyn: "tree_findMax k d t = Some (tree_findMax_static k d t)"
    "tree_findMin k d t = Some (tree_findMin_static k d t)"
    using assms(3)
    by (simp_all add: tree_findMax_def tree_findMin_def tree_findMax_static_def
        tree_findMin_static_def findMaxDynamic_eq findMinDynamic_eq)
  have "is_max_of d (set (entries (root t))) (tree_findMax_static k d t)"
    unfolding tree_findMax_static_def by (rule findMax_is_max [OF assms(1)])
  then have mx: "\<exists>l mk mv r. tree_findMax_static k d t = Node l mk mv r
            \<and> (mk, mv) \<in> set (entries (root t))
            \<and> (\<forall>x \<in> set (keys (root t)). x ! d \<le> mk ! d)"
    using nonempty by (cases "tree_findMax_static k d t") (auto simp: is_max_of_def keys_def)
  have "is_min_of d (set (entries (root t))) (tree_findMin_static k d t)"
    unfolding tree_findMin_static_def by (rule findMin_is_min [OF assms(1)])
  then have mn: "\<exists>l mk mv r. tree_findMin_static k d t = Node l mk mv r
            \<and> (mk, mv) \<in> set (entries (root t))
            \<and> (\<forall>x \<in> set (keys (root t)). mk ! d \<le> x ! d)"
    using nonempty by (cases "tree_findMin_static k d t") (auto simp: is_min_of_def keys_def)
  from mx mn show ?thesis
    by (simp add: dyn)
qed

theorem findMax_findMin_extremum_witness:
  "kd_ordered 2 0 (root (KDTree 2 [([2, 3 :: int], ''x''), ([1, 1], ''y''), ([4, 0], ''z'')]))
   \<and> root (KDTree 2 [([2, 3 :: int], ''x''), ([1, 1], ''y''), ([4, 0], ''z'')]) \<noteq> Null
   \<and> (1 :: nat) < 2
   \<and> tree_findMax 2 1 (KDTree 2 [([2, 3 :: int], ''x''), ([1, 1], ''y''), ([4, 0], ''z'')])
       = Some (Node (Node Null [1, 1] ''y'' Null) [2, 3] ''x'' (Node Null [4, 0] ''z'' Null))
   \<and> tree_findMin 2 1 (KDTree 2 [([2, 3 :: int], ''x''), ([1, 1], ''y''), ([4, 0], ''z'')])
       = Some (Node Null [4, 0] ''z'' Null)"
proof -
  let ?t = "KDTree 2 [([2, 3 :: int], ''x''), ([1, 1], ''y''), ([4, 0], ''z'')]"
  have h1: "kd_ordered 2 0 (root ?t)" by code_simp
  have h2: "root ?t \<noteq> Null" by code_simp
  have h3: "(1 :: nat) < 2" by simp
  have mx: "tree_findMax 2 1 ?t
       = Some (Node (Node Null [1, 1] ''y'' Null) [2, 3] ''x'' (Node Null [4, 0] ''z'' Null))"
    by code_simp
  have mn: "tree_findMin 2 1 ?t = Some (Node Null [4, 0] ''z'' Null)"
    by code_simp
  from findMax_findMin_extremum [OF h1 h2 h3] h1 h2 h3 mx mn show ?thesis
    by blast
qed

subsection \<open>Every operation keeps the order\<close>

lemma insert_node_keys:
  "insert_node k DIM key v t n = (b, t', n') \<Longrightarrow> set (keys t') = insert key (set (keys t))"
  by (induction t arbitrary: DIM b t' n') (auto split: if_splits prod.splits)

lemma insert_node_ordered:
  "kd_ordered k DIM t \<Longrightarrow> insert_node k DIM key v t n = (b, t', n') \<Longrightarrow> kd_ordered k DIM t'"
proof (induction t arbitrary: DIM b t' n')
  case Null
  then show ?case by auto
next
  case (Node l nk nv r)
  show ?case
  proof (cases "nk = key")
    case True
    with Node.prems show ?thesis by auto
  next
    case False
    show ?thesis
    proof (cases "strictLessKey DIM Less key nk")
      case True
      then obtain l' where l': "insert_node k ((DIM + 1) mod k) key v l n = (b, l', n')"
        and t': "t' = Node l' nk nv r"
        using Node.prems False by (auto split: prod.splits)
      have "kd_ordered k ((DIM + 1) mod k) l'"
        using Node.IH(1) [OF _ l'] Node.prems(1) by simp
      moreover have "key ! DIM \<le> nk ! DIM"
        using True by (simp add: strictLessKey_def)
      ultimately show ?thesis
        using Node.prems(1) t' insert_node_keys [OF l'] by auto
    next
      case right: False
      then obtain r' where r': "insert_node k ((DIM + 1) mod k) key v r n = (b, r', n')"
        and t': "t' = Node l nk nv r'"
        using Node.prems False by (auto split: prod.splits)
      have "kd_ordered k ((DIM + 1) mod k) r'"
        using Node.IH(2) [OF _ r'] Node.prems(1) by simp
      moreover have "nk ! DIM \<le> key ! DIM"
        using right by (simp add: strictLessKey_def)
      ultimately show ?thesis
        using Node.prems(1) t' insert_node_keys [OF r'] by auto
    qed
  qed
qed

lemma erase_entries_subset:
  "erase k DIM t key n = (t', n', rs) \<Longrightarrow> set (entries t') \<subseteq> set (entries t)"
proof (induction t arbitrary: DIM key n t' n' rs)
  case Null
  then show ?case by simp
next
  case (Node l nk nv r)
  let ?n = "(DIM + 1) mod k"
  show ?case
  proof (cases "key = nk")
    case True
    show ?thesis
    proof (cases "l = Null \<and> r = Null")
      case leaf: True
      with Node.prems True show ?thesis by auto
    next
      case inner: False
      show ?thesis
      proof (cases "r \<noteq> Null")
        case r: True
        then obtain ml mk mv mr where m: "findMin k DIM ?n r = Node ml mk mv mr"
          by (cases "findMin k DIM ?n r") simp_all
        obtain r' where r': "erase k ?n r mk n = (r', n', rs)" and t': "t' = Node l mk mv r'"
          using Node.prems True inner r m by (auto split: prod.splits)
        from findMin_in [OF m] Node.IH(2) [OF r'] t' show ?thesis by auto
      next
        case r: False
        with inner have "l \<noteq> Null" by simp
        then obtain ml mk mv mr where m: "findMax k DIM ?n l = Node ml mk mv mr"
          by (cases "findMax k DIM ?n l") simp_all
        obtain l' where l': "erase k ?n l mk n = (l', n', rs)" and t': "t' = Node l' mk mv r"
          using Node.prems True inner r m by (auto split: prod.splits)
        from findMax_in [OF m] Node.IH(1) [OF l'] t' show ?thesis by auto
      qed
    qed
  next
    case False
    show ?thesis
    proof (cases "strictLessKey DIM Less key nk")
      case True
      then obtain l' where l': "erase k ?n l key n = (l', n', rs)" and t': "t' = Node l' nk nv r"
        using Node.prems False by (auto split: prod.splits)
      from Node.IH(1) [OF l'] t' show ?thesis by auto
    next
      case right: False
      then obtain r' where r': "erase k ?n r key n = (r', n', rs)" and t': "t' = Node l nk nv r'"
        using Node.prems False by (auto split: prod.splits)
      from Node.IH(2) [OF r'] t' show ?thesis by auto
    qed
  qed
qed

lemma erase_keys_subset:
  "erase k DIM t key n = (t', n', rs) \<Longrightarrow> set (keys t') \<subseteq> set (keys t)"
  using erase_entries_subset [of k DIM t key n t' n' rs] by (auto simp: keys_def)

lemma erase_ordered:
  "kd_ordered k DIM t \<Longrightarrow> erase k DIM t key n = (t', n', rs) \<Longrightarrow> kd_ordered k DIM t'"
proof (induction t arbitrary: DIM key n t' n' rs)
  case Null
  then show ?case by simp
next
  case (Node l nk nv r)
  let ?n = "(DIM + 1) mod k"
  have ordl: "kd_ordered k ?n l" and ordr: "kd_ordered k ?n r"
    and lle: "\<forall>x \<in> set (keys l). x ! DIM \<le> nk ! DIM"
    and rge: "\<forall>x \<in> set (keys r). nk ! DIM \<le> x ! DIM"
    using Node.prems(1) by simp_all
  show ?case
  proof (cases "key = nk")
    case True
    show ?thesis
    proof (cases "l = Null \<and> r = Null")
      case leaf: True
      with Node.prems True show ?thesis by auto
    next
      case inner: False
      show ?thesis
      proof (cases "r \<noteq> Null")
        case r: True
        then obtain ml mk mv mr where m: "findMin k DIM ?n r = Node ml mk mv mr"
          by (cases "findMin k DIM ?n r") simp_all
        obtain r' where r': "erase k ?n r mk n = (r', n', rs)" and t': "t' = Node l mk mv r'"
          using Node.prems True inner r m by (auto split: prod.splits)
        have "is_min_of DIM (set (entries r)) (Node ml mk mv mr)"
          using findMin_is_min [OF ordr, of DIM] m by simp
        then have mk_in: "mk \<in> set (keys r)" and mk_le: "\<forall>x \<in> set (keys r). mk ! DIM \<le> x ! DIM"
          by (force simp: is_min_of_def keys_def)+
        have "\<forall>x \<in> set (keys l). x ! DIM \<le> mk ! DIM"
          using lle rge mk_in by (meson order_trans)
        moreover have "\<forall>x \<in> set (keys r'). mk ! DIM \<le> x ! DIM"
          using mk_le erase_keys_subset [OF r'] by blast
        moreover have "kd_ordered k ?n r'"
          by (rule Node.IH(2) [OF ordr r'])
        ultimately show ?thesis
          using t' ordl by simp
      next
        case r: False
        with inner have "l \<noteq> Null" by simp
        then obtain ml mk mv mr where m: "findMax k DIM ?n l = Node ml mk mv mr"
          by (cases "findMax k DIM ?n l") simp_all
        obtain l' where l': "erase k ?n l mk n = (l', n', rs)" and t': "t' = Node l' mk mv r"
          using Node.prems True inner r m by (auto split: prod.splits)
        have "is_max_of DIM (set (entries l)) (Node ml mk mv mr)"
          using findMax_is_max [OF ordl, of DIM] m by simp
        then have mk_ge: "\<forall>x \<in> set (keys l). x ! DIM \<le> mk ! DIM"
          by (force simp: is_max_of_def keys_def)
        have "\<forall>x \<in> set (keys l'). x ! DIM \<le> mk ! DIM"
          using mk_ge erase_keys_subset [OF l'] by blast
        moreover have "kd_ordered k ?n l'"
          by (rule Node.IH(1) [OF ordl l'])
        ultimately show ?thesis
          using t' r by simp
      qed
    qed
  next
    case False
    show ?thesis
    proof (cases "strictLessKey DIM Less key nk")
      case True
      then obtain l' where l': "erase k ?n l key n = (l', n', rs)" and t': "t' = Node l' nk nv r"
        using Node.prems False by (auto split: prod.splits)
      from Node.IH(1) [OF ordl l'] erase_keys_subset [OF l'] t' lle rge ordr show ?thesis
        by auto
    next
      case right: False
      then obtain r' where r': "erase k ?n r key n = (r', n', rs)" and t': "t' = Node l nk nv r'"
        using Node.prems False by (auto split: prod.splits)
      from Node.IH(2) [OF ordr r'] erase_keys_subset [OF r'] t' lle rge ordl show ?thesis
        by auto
    qed
  qed
qed

lemma copyAll_id [simp]: "copyAll t = t"
  by (induction t) simp_all

subsection \<open>Sorting, and the tree the bulk constructor builds\<close>

lemma mset_insort_by [simp]: "mset (insort_by cmp x ys) = add_mset x (mset ys)"
  by (induction ys) auto

lemma mset_stable_sort [simp]: "mset (stable_sort cmp v) = mset v"
  by (induction v) (auto simp: stable_sort_def)

lemma set_stable_sort [simp]: "set (stable_sort cmp v) = set v"
  using mset_stable_sort [of cmp v] by (metis set_mset_mset)

lemma set_insort_by [simp]: "set (insort_by cmp x ys) = insert x (set ys)"
  by (induction ys) auto

lemma sorted_insort_by:
  assumes tr: "\<And>a b c. P a b \<Longrightarrow> P b c \<Longrightarrow> P a c"
    and yes: "\<And>a b. cmp a b \<Longrightarrow> P a b"
    and no: "\<And>a b. \<not> cmp a b \<Longrightarrow> P b a"
  shows "sorted_wrt P ys \<Longrightarrow> sorted_wrt P (insort_by cmp x ys)"
proof (induction ys)
  case Nil
  then show ?case by simp
next
  case (Cons y ys)
  show ?case
  proof (cases "cmp y x")
    case True
    with Cons yes [OF True] show ?thesis by auto
  next
    case False
    have "P x y" by (rule no [OF False])
    moreover have "\<forall>z \<in> set ys. P x z"
      using \<open>P x y\<close> Cons.prems tr by auto
    ultimately show ?thesis using False Cons.prems by simp
  qed
qed

lemma sorted_stable_sort:
  assumes tr: "\<And>a b c. P a b \<Longrightarrow> P b c \<Longrightarrow> P a c"
    and yes: "\<And>a b. cmp a b \<Longrightarrow> P a b"
    and no: "\<And>a b. \<not> cmp a b \<Longrightarrow> P b a"
  shows "sorted_wrt P (stable_sort cmp v)"
proof (induction v)
  case Nil
  then show ?case by (simp add: stable_sort_def)
next
  case (Cons x v)
  have "stable_sort cmp (x # v) = insort_by cmp x (stable_sort cmp v)"
    by (simp add: stable_sort_def)
  with Cons sorted_insort_by [of P cmp, OF tr yes no] show ?case
    by simp
qed

lemma sorted_component_stable_sort:
  "sorted_wrt (\<lambda>a b. fst a ! DIM \<le> fst b ! DIM) (stable_sort (compareData DIM) v)"
proof (rule sorted_stable_sort)
  fix a b c :: "'a key \<times> 'b"
  show "fst a ! DIM \<le> fst b ! DIM \<Longrightarrow> fst b ! DIM \<le> fst c ! DIM \<Longrightarrow> fst a ! DIM \<le> fst c ! DIM"
    by simp
  show "compareData DIM a b \<Longrightarrow> fst a ! DIM \<le> fst b ! DIM"
    by (simp add: compareData_def compareKey_Less_le)
  show "\<not> compareData DIM a b \<Longrightarrow> fst b ! DIM \<le> fst a ! DIM"
    by (simp add: compareData_def not_compareKey_Less_le)
qed

lemma KDTree_helper_Nil [simp]: "KDTree_helper k DIM [] = Null"
  by (subst KDTree_helper.simps) simp

lemma KDTree_helper_step:
  assumes "v \<noteq> []"
  shows "KDTree_helper k DIM v =
     Node (KDTree_helper k ((DIM + 1) mod k)
             (take ((length v - 1) div 2) (nth_element ((length v - 1) div 2) (compareData DIM) v)))
          (fst (nth_element ((length v - 1) div 2) (compareData DIM) v ! ((length v - 1) div 2)))
          (snd (nth_element ((length v - 1) div 2) (compareData DIM) v ! ((length v - 1) div 2)))
          (KDTree_helper k ((DIM + 1) mod k)
             (drop ((length v - 1) div 2 + 1)
                (nth_element ((length v - 1) div 2) (compareData DIM) v)))"
  using assms by (subst KDTree_helper.simps) (simp add: Let_def)

lemma KDTree_helper_entries: "mset (entries (KDTree_helper k DIM v)) = mset v"
proof (induction "length v" arbitrary: v DIM rule: less_induct)
  case less
  show ?case
  proof (cases "v = []")
    case True
    then show ?thesis by simp
  next
    case False
    let ?m = "(length v - 1) div 2"
    let ?s = "nth_element ?m (compareData DIM) v"
    have m: "?m < length ?s" using False median_index_less [of v] by simp
    have split: "?s = take ?m ?s @ ?s ! ?m # drop (Suc ?m) ?s"
      by (rule id_take_nth_drop [OF m])
    have "mset (entries (KDTree_helper k ((DIM + 1) mod k) (take ?m ?s))) = mset (take ?m ?s)"
      using m by (intro less) simp
    moreover have "mset (entries (KDTree_helper k ((DIM + 1) mod k) (drop (Suc ?m) ?s)))
        = mset (drop (Suc ?m) ?s)"
      using m by (intro less) simp
    ultimately have "mset (entries (KDTree_helper k DIM v))
        = mset (take ?m ?s) + {#?s ! ?m#} + mset (drop (Suc ?m) ?s)"
      by (simp add: KDTree_helper_step [OF False])
    also have "\<dots> = mset (take ?m ?s @ ?s ! ?m # drop (Suc ?m) ?s)"
      by simp
    also have "\<dots> = mset ?s" using split by simp
    finally show ?thesis by (simp add: nth_element_def)
  qed
qed

lemma KDTree_helper_set_entries: "set (entries (KDTree_helper k DIM v)) = set v"
  using KDTree_helper_entries [of k DIM v] by (metis set_mset_mset)

lemma KDTree_helper_ordered: "kd_ordered k DIM (KDTree_helper k DIM v)"
proof (induction "length v" arbitrary: v DIM rule: less_induct)
  case less
  show ?case
  proof (cases "v = []")
    case True
    then show ?thesis by simp
  next
    case False
    let ?m = "(length v - 1) div 2"
    let ?s = "nth_element ?m (compareData DIM) v"
    let ?P = "\<lambda>a b :: 'a key \<times> 'b. fst a ! DIM \<le> fst b ! DIM"
    have m: "?m < length ?s" using False median_index_less [of v] by simp
    have split: "?s = take ?m ?s @ ?s ! ?m # drop (Suc ?m) ?s"
      by (rule id_take_nth_drop [OF m])
    have "sorted_wrt ?P ?s"
      by (simp add: nth_element_def sorted_component_stable_sort)
    then have "sorted_wrt ?P (take ?m ?s @ ?s ! ?m # drop (Suc ?m) ?s)"
      using split by simp
    then have before: "\<forall>a \<in> set (take ?m ?s). ?P a (?s ! ?m)"
      and after: "\<forall>b \<in> set (drop (Suc ?m) ?s). ?P (?s ! ?m) b"
      by (auto simp: sorted_wrt_append)
    have "kd_ordered k ((DIM + 1) mod k) (KDTree_helper k ((DIM + 1) mod k) (take ?m ?s))"
      using m by (intro less) simp
    moreover have "kd_ordered k ((DIM + 1) mod k) (KDTree_helper k ((DIM + 1) mod k) (drop (Suc ?m) ?s))"
      using m by (intro less) simp
    ultimately show ?thesis
      using before after
      by (simp add: KDTree_helper_step [OF False] keys_def KDTree_helper_set_entries)
  qed
qed

text \<open>
  The trees the public operations build, starting from either constructor: every one of
  them is ordered. (\<^verbatim>\<open>erase(Iterator)\<close> is treated with the cursors below.)
\<close>

inductive reachable :: "nat \<Rightarrow> ('a::linorder, 'v) kdtree \<Rightarrow> bool" for k where
  default: "reachable k KDTree_default"
| bulk: "reachable k (KDTree k v)"
| copy: "reachable k t \<Longrightarrow> reachable k (KDTree_copy t)"
| insert: "reachable k t \<Longrightarrow> reachable k (tree_insert k key value t)"
| erase: "reachable k t \<Longrightarrow> tree_erase k key t = Some (b, t') \<Longrightarrow> reachable k t'"

lemma reachable_ordered: "reachable k t \<Longrightarrow> kd_ordered k 0 (root t)"
proof (induction rule: reachable.induct)
  case default
  then show ?case by (simp add: KDTree_default_def)
next
  case (bulk v)
  then show ?case by (simp add: KDTree_def Let_def KDTree_helper_ordered)
next
  case (copy t)
  then show ?case by (simp add: KDTree_copy_def)
next
  case (insert t key "value")
  obtain b r' n' where i: "insert_node k 0 key value (root t) (treeSize t) = (b, r', n')"
    by (cases "insert_node k 0 key value (root t) (treeSize t)") auto
  from insert_node_ordered [OF insert.IH i] show ?case
    by (simp add: tree_insert_def i)
next
  case (erase t key b t')
  obtain r' n' rs where e: "erase k 0 (root t) key (treeSize t) = (r', n', rs)"
    by (cases "erase k 0 (root t) key (treeSize t)") auto
  from erase_ordered [OF erase.IH e] erase.hyps(2) show ?case
    by (auto simp: tree_erase_def e Let_def split: if_splits)
qed

text \<open>
  \<^verbatim>\<open>treeSize\<close> is the number of nodes in every tree the operations build, so
  \<^verbatim>\<open>treeSize--\<close> never meets zero and \<^verbatim>\<open>treeSize++\<close> never wraps; and \<^verbatim>\<open>erase(key)\<close>
  never leaves \<^verbatim>\<open>root\<close> pointing to a deleted node.
\<close>

lemma insert_node_size:
  "insert_node k DIM key v t n = (b, t', n') \<Longrightarrow>
   n' + length (entries t) = n + length (entries t')"
proof (induction t arbitrary: DIM b t' n')
  case Null
  then show ?case by auto
next
  case (Node l nk nv r)
  show ?case
  proof (cases "nk = key")
    case True
    with Node.prems show ?thesis by auto
  next
    case False
    show ?thesis
    proof (cases "strictLessKey DIM Less key nk")
      case True
      then obtain l' where l': "insert_node k ((DIM + 1) mod k) key v l n = (b, l', n')"
        and t': "t' = Node l' nk nv r"
        using Node.prems False by (auto split: prod.splits)
      from Node.IH(1) [OF l'] t' show ?thesis by simp
    next
      case right: False
      then obtain r' where r': "insert_node k ((DIM + 1) mod k) key v r n = (b, r', n')"
        and t': "t' = Node l nk nv r'"
        using Node.prems False by (auto split: prod.splits)
      from Node.IH(2) [OF r'] t' show ?thesis by simp
    qed
  qed
qed

lemma erase_size:
  "erase k DIM t key n = (t', n', rs) \<Longrightarrow> length (entries t) \<le> n \<Longrightarrow>
   n' + length (entries t) = n + length (entries t') \<and> (rs \<longrightarrow> n' = 0)
   \<and> (t' = Null \<and> t \<noteq> Null \<longrightarrow> t = Node Null key (snd (hd (entries t))) Null \<and> rs = (n' = 0))"
proof (induction t arbitrary: DIM key n t' n' rs)
  case Null
  then show ?case by simp
next
  case (Node l nk nv r)
  let ?n = "(DIM + 1) mod k"
  show ?case
  proof (cases "key = nk")
    case True
    show ?thesis
    proof (cases "l = Null \<and> r = Null")
      case leaf: True
      with Node.prems True show ?thesis by auto
    next
      case inner: False
      show ?thesis
      proof (cases "r \<noteq> Null")
        case r: True
        then obtain ml mk mv mr where m: "findMin k DIM ?n r = Node ml mk mv mr"
          by (cases "findMin k DIM ?n r") simp_all
        obtain r' where r': "erase k ?n r mk n = (r', n', rs)" and t': "t' = Node l mk mv r'"
          using Node.prems True inner r m by (auto split: prod.splits)
        have "length (entries r) \<le> n" using Node.prems(2) by simp
        from Node.IH(2) [OF r' this] t' show ?thesis by simp
      next
        case r: False
        with inner have "l \<noteq> Null" by simp
        then obtain ml mk mv mr where m: "findMax k DIM ?n l = Node ml mk mv mr"
          by (cases "findMax k DIM ?n l") simp_all
        obtain l' where l': "erase k ?n l mk n = (l', n', rs)" and t': "t' = Node l' mk mv r"
          using Node.prems True inner r m by (auto split: prod.splits)
        have "length (entries l) \<le> n" using Node.prems(2) by simp
        from Node.IH(1) [OF l' this] t' show ?thesis by simp
      qed
    qed
  next
    case False
    show ?thesis
    proof (cases "strictLessKey DIM Less key nk")
      case True
      then obtain l' where l': "erase k ?n l key n = (l', n', rs)" and t': "t' = Node l' nk nv r"
        using Node.prems False by (auto split: prod.splits)
      have "length (entries l) \<le> n" using Node.prems(2) by simp
      from Node.IH(1) [OF l' this] t' show ?thesis by simp
    next
      case right: False
      then obtain r' where r': "erase k ?n r key n = (r', n', rs)" and t': "t' = Node l nk nv r'"
        using Node.prems False by (auto split: prod.splits)
      have "length (entries r) \<le> n" using Node.prems(2) by simp
      from Node.IH(2) [OF r' this] t' show ?thesis by simp
    qed
  qed
qed

lemma entries_Nil [simp]: "entries t = [] \<longleftrightarrow> t = Null"
  by (cases t) simp_all

lemma reachable_size: "reachable k t \<Longrightarrow> treeSize t = length (entries (root t))"
proof (induction rule: reachable.induct)
  case default
  then show ?case by (simp add: KDTree_default_def)
next
  case (bulk v)
  have "length (entries (KDTree_helper k 0 u)) = length u" for u :: "('a key \<times> 'b) list"
    using KDTree_helper_entries [of k 0 u] by (rule mset_eq_length)
  then show ?case by (simp add: KDTree_def Let_def)
next
  case (copy t)
  then show ?case by (simp add: KDTree_copy_def)
next
  case (insert t key "value")
  obtain b r' n' where i: "insert_node k 0 key value (root t) (treeSize t) = (b, r', n')"
    by (cases "insert_node k 0 key value (root t) (treeSize t)") auto
  from insert_node_size [OF i] insert.IH have "n' = length (entries r')" by simp
  then show ?case by (simp add: tree_insert_def i)
next
  case (erase t key b t')
  obtain r' n' rs where e: "erase k 0 (root t) key (treeSize t) = (r', n', rs)"
    by (cases "erase k 0 (root t) key (treeSize t)") auto
  from erase_size [OF e] erase.IH
  have "n' = length (entries r')" "rs \<longrightarrow> n' = 0" by auto
  with erase.hyps(2) show ?case
    by (auto simp: tree_erase_def e Let_def split: if_splits)
qed

lemma tree_erase_returns:
  assumes "reachable k t"
  shows "\<exists>b t'. tree_erase k key t = Some (b, t')"
proof -
  obtain r' n' rs where e: "erase k 0 (root t) key (treeSize t) = (r', n', rs)"
    by (cases "erase k 0 (root t) key (treeSize t)") auto
  have n: "length (entries (root t)) \<le> treeSize t"
    using reachable_size [OF assms] by simp
  from erase_size [OF e n] reachable_size [OF assms]
  have "n' = length (entries r')" "r' = Null \<and> root t \<noteq> Null \<longrightarrow> rs = (n' = 0)" by auto
  then have "\<not> (\<not> rs \<and> r' = Null \<and> root t \<noteq> Null)" by auto
  then show ?thesis
    by (auto simp: tree_erase_def e Let_def)
qed

subsection \<open>The order on keys, and the duplicates the constructor drops\<close>

lemma tuple_less_irrefl [simp]: "\<not> tuple_less a a"
  by (induction a) auto

lemma tuple_less_trans: "tuple_less a b \<Longrightarrow> tuple_less b c \<Longrightarrow> tuple_less a c"
proof (induction a b arbitrary: c rule: tuple_less.induct)
  case (1 x xs y ys)
  then show ?case by (cases c) (auto split: if_splits)
qed simp_all

lemma tuple_less_total:
  "length a = length b \<Longrightarrow> a \<noteq> b \<Longrightarrow> tuple_less a b \<or> tuple_less b a"
  by (induction a b rule: list_induct2) auto

lemma compareKey_irrefl [simp]: "\<not> compareKey DIM Less a a"
  by (simp add: compareKey_def)

lemma compareKey_trans:
  "compareKey DIM Less a b \<Longrightarrow> compareKey DIM Less b c \<Longrightarrow> compareKey DIM Less a c"
  by (auto simp: compareKey_def dest: tuple_less_trans split: if_splits)

lemma compareKey_total:
  "length a = length b \<Longrightarrow> a \<noteq> b \<Longrightarrow> compareKey DIM Less a b \<or> compareKey DIM Less b a"
  using tuple_less_total [of a b] by (auto simp: compareKey_def)

lemma map_of_unique: "map_of (unique (\<lambda>a b. fst a = fst b) xs) = map_of xs"
proof (induction "length xs" arbitrary: xs rule: less_induct)
  case less
  show ?case
  proof (cases xs)
    case Nil
    then show ?thesis by simp
  next
    case (Cons x xs')
    show ?thesis
    proof (cases xs')
      case Nil
      with Cons show ?thesis by simp
    next
      case tail: (Cons y ys)
      show ?thesis
      proof (cases "fst x = fst y")
        case True
        have "map_of (unique (\<lambda>a b. fst a = fst b) (x # ys)) = map_of (x # ys)"
          by (rule less) (simp add: Cons tail)
        with True show ?thesis
          by (cases x; cases y) (auto simp: Cons tail fun_eq_iff)
      next
        case False
        have "map_of (unique (\<lambda>a b. fst a = fst b) (y # ys)) = map_of (y # ys)"
          by (rule less) (simp add: Cons tail)
        with False show ?thesis
          by (cases x) (simp add: Cons tail)
      qed
    qed
  qed
qed

lemma set_unique_subset: "set (unique p xs) \<subseteq> set xs"
  by (induction p xs rule: unique.induct) auto

lemma unique_strict:
  assumes "\<forall>e \<in> set xs. length (fst e) = k"
    and "sorted_wrt (\<lambda>a b. \<not> compareData DIM a b) xs"
  shows "sorted_wrt (\<lambda>a b. compareData DIM b a) (unique (\<lambda>a b. fst a = fst b) xs)"
  using assms
proof (induction "length xs" arbitrary: xs rule: less_induct)
  case less
  show ?case
  proof (cases xs)
    case Nil
    then show ?thesis by simp
  next
    case (Cons x xs')
    show ?thesis
    proof (cases xs')
      case Nil
      with Cons show ?thesis by simp
    next
      case tail: (Cons y ys)
      note xs = Cons tail
      show ?thesis
      proof (cases "fst x = fst y")
        case True
        have "sorted_wrt (\<lambda>a b. compareData DIM b a) (unique (\<lambda>a b. fst a = fst b) (x # ys))"
          using less.prems by (intro less) (auto simp: xs)
        with True show ?thesis by (simp add: xs)
      next
        case False
        have len: "length (fst x) = length (fst y)" using less.prems by (simp add: xs)
        have "\<not> compareData DIM x y" using less.prems by (simp add: xs)
        with False len have yx: "compareData DIM y x"
          using compareKey_total [of "fst y" "fst x" DIM] by (auto simp: compareData_def)
        have "compareData DIM z x" if z: "z \<in> set (unique (\<lambda>a b. fst a = fst b) (y # ys))" for z
        proof -
          from z set_unique_subset have zin: "z \<in> set (y # ys)" by fast
          then have "z = y \<or> \<not> compareData DIM y z" using less.prems by (auto simp: xs)
          moreover have "length (fst z) = length (fst y)"
            using zin less.prems by (auto simp: xs)
          ultimately have "fst z = fst y \<or> compareData DIM z y"
            using compareKey_total [of "fst z" "fst y" DIM] by (auto simp: compareData_def)
          with yx show ?thesis
            by (auto simp: compareData_def dest: compareKey_trans)
        qed
        moreover have "sorted_wrt (\<lambda>a b. compareData DIM b a) (unique (\<lambda>a b. fst a = fst b) (y # ys))"
          using less.prems by (intro less) (auto simp: xs)
        ultimately show ?thesis using False by (simp add: xs)
      qed
    qed
  qed
qed

lemma strict_sorted_distinct_keys:
  "sorted_wrt (\<lambda>a b. compareData DIM b a) xs \<Longrightarrow> distinct (map fst xs)"
  by (induction xs) (auto simp: compareData_def)

lemma filter_insort_by:
  assumes "\<forall>y \<in> set ys. Q y \<longrightarrow> \<not> cmp y x"
  shows "filter Q (insort_by cmp x ys) = filter Q (x # ys)"
  using assms by (induction ys) auto

lemma filter_stable_sort:
  assumes "\<And>a b. Q a \<Longrightarrow> Q b \<Longrightarrow> \<not> cmp a b"
  shows "filter Q (stable_sort cmp v) = filter Q v"
proof (induction v)
  case Nil
  then show ?case by (simp add: stable_sort_def)
next
  case (Cons x v)
  have step: "stable_sort cmp (x # v) = insort_by cmp x (stable_sort cmp v)"
    by (simp add: stable_sort_def)
  show ?case
  proof (cases "Q x")
    case True
    then have "\<forall>y \<in> set (stable_sort cmp v). Q y \<longrightarrow> \<not> cmp y x"
      using assms by blast
    from filter_insort_by [of "stable_sort cmp v" Q cmp x, OF this] Cons show ?thesis by (simp add: step)
  next
    case False
    have "filter Q (insort_by cmp x ys) = filter Q ys" for ys
      using False by (induction ys) auto
    with Cons False show ?thesis by (simp add: step)
  qed
qed

lemma map_of_filter_key: "map_of (filter (\<lambda>e. fst e = key) xs) key = map_of xs key"
  by (induction xs) auto

lemma map_of_rev_stable_sort:
  "map_of (rev (stable_sort (compareData DIM) v)) = map_of (rev v)"
proof
  fix key
  let ?Q = "\<lambda>e :: 'a key \<times> 'b. fst e = key"
  have "filter ?Q (stable_sort (compareData DIM) v) = filter ?Q v"
    by (rule filter_stable_sort) (simp add: compareData_def)
  then have "filter ?Q (rev (stable_sort (compareData DIM) v)) = filter ?Q (rev v)"
    by (simp add: rev_filter [symmetric])
  then show "map_of (rev (stable_sort (compareData DIM) v)) key = map_of (rev v) key"
    by (metis map_of_filter_key)
qed


lemma sorted_insort_by_on:
  assumes tr: "\<And>a b c. a \<in> S \<Longrightarrow> b \<in> S \<Longrightarrow> c \<in> S \<Longrightarrow> P a b \<Longrightarrow> P b c \<Longrightarrow> P a c"
    and yes: "\<And>a b. a \<in> S \<Longrightarrow> b \<in> S \<Longrightarrow> cmp a b \<Longrightarrow> P a b"
    and no: "\<And>a b. a \<in> S \<Longrightarrow> b \<in> S \<Longrightarrow> \<not> cmp a b \<Longrightarrow> P b a"
  shows "x \<in> S \<Longrightarrow> set ys \<subseteq> S \<Longrightarrow> sorted_wrt P ys \<Longrightarrow> sorted_wrt P (insort_by cmp x ys)"
proof (induction ys)
  case Nil
  then show ?case by simp
next
  case (Cons y ys)
  show ?case
  proof (cases "cmp y x")
    case True
    with Cons yes [OF _ _ True] show ?thesis by auto
  next
    case False
    have "P x y" using no [OF _ _ False] Cons.prems by simp
    moreover have "\<forall>z \<in> set ys. P x z"
    proof
      fix z assume z: "z \<in> set ys"
      with Cons.prems have "P y z" by simp
      with \<open>P x y\<close> show "P x z" using tr [of x y z] Cons.prems z by auto
    qed
    ultimately show ?thesis using False Cons.prems by simp
  qed
qed

lemma sorted_stable_sort_on:
  assumes tr: "\<And>a b c. a \<in> S \<Longrightarrow> b \<in> S \<Longrightarrow> c \<in> S \<Longrightarrow> P a b \<Longrightarrow> P b c \<Longrightarrow> P a c"
    and yes: "\<And>a b. a \<in> S \<Longrightarrow> b \<in> S \<Longrightarrow> cmp a b \<Longrightarrow> P a b"
    and no: "\<And>a b. a \<in> S \<Longrightarrow> b \<in> S \<Longrightarrow> \<not> cmp a b \<Longrightarrow> P b a"
  shows "set v \<subseteq> S \<Longrightarrow> sorted_wrt P (stable_sort cmp v)"
proof (induction v)
  case Nil
  then show ?case by (simp add: stable_sort_def)
next
  case (Cons x v)
  have "stable_sort cmp (x # v) = insort_by cmp x (stable_sort cmp v)"
    by (simp add: stable_sort_def)
  moreover have "sorted_wrt P (insort_by cmp x (stable_sort cmp v))"
    using Cons by (intro sorted_insort_by_on [of S P cmp, OF tr yes no]) simp_all
  ultimately show ?case by simp
qed

lemma sorted_key_stable_sort:
  assumes "\<forall>e \<in> set v. length (fst e) = k"
  shows "sorted_wrt (\<lambda>a b. \<not> compareData DIM b a) (stable_sort (compareData DIM) v)"
proof (rule sorted_stable_sort_on [where S = "{e. length (fst e) = k}"])
  fix a b c :: "'a key \<times> 'b"
  assume len: "a \<in> {e. length (fst e) = k}" "b \<in> {e. length (fst e) = k}"
  show "compareData DIM a b \<Longrightarrow> \<not> compareData DIM b a"
    using compareKey_trans [of DIM "fst a" "fst b" "fst a"] by (auto simp: compareData_def)
  show "\<not> compareData DIM a b \<Longrightarrow> \<not> compareData DIM a b" .
  assume "c \<in> {e. length (fst e) = k}" and ba: "\<not> compareData DIM b a" and cb: "\<not> compareData DIM c b"
  show "\<not> compareData DIM c a"
  proof
    assume ca: "compareData DIM c a"
    have "fst a = fst b \<or> compareData DIM a b"
      using ba len compareKey_total [of "fst a" "fst b" DIM] by (auto simp: compareData_def)
    then show False
    proof
      assume "fst a = fst b"
      with ca cb show False by (simp add: compareData_def)
    next
      assume "compareData DIM a b"
      with ca cb show False by (auto simp: compareData_def dest: compareKey_trans)
    qed
  qed
next
  show "set v \<subseteq> {e. length (fst e) = k}" using assms by auto
qed

lemma distinct_keys_rev: "distinct (map fst (rev xs)) = distinct (map fst xs)"
  by (simp only: rev_map [symmetric] distinct_rev)

lemma map_of_rev_distinct:
  assumes "distinct (map fst xs)"
  shows "map_of (rev xs) = map_of xs"
proof -
  have "distinct (map fst (rev xs))" using assms by (simp only: distinct_keys_rev)
  from map_of_inject_set [OF this assms] show ?thesis by simp
qed

lemma map_of_mset_eq:
  assumes "mset xs = mset ys" "distinct (map fst ys)"
  shows "distinct (map fst xs) \<and> map_of xs = map_of ys \<and> length xs = length ys"
proof -
  have "mset (map fst xs) = mset (map fst ys)"
    by (simp only: mset_map assms(1))
  then have d: "distinct (map fst xs)"
    using assms(2) mset_eq_imp_distinct_iff by blast
  have "set xs = set ys"
    using assms(1) by (rule mset_eq_setD)
  with map_of_inject_set [OF d assms(2)] have "map_of xs = map_of ys" by blast
  moreover have "length xs = length ys"
    using assms(1) by (rule mset_eq_length)
  ultimately show ?thesis using d by blast
qed

text \<open>
  C6. For every input vector whose keys all have \<open>k\<close> components, duplicates included,
  the bulk constructor builds a tree whose keys are pairwise distinct, whose entries are
  exactly the pairs \<open>(key, value)\<close> with \<open>value\<close> the value of the last occurrence of
  \<open>key\<close> in the input (\<open>map_of (rev v)\<close> looks a key up from the back), and \<^verbatim>\<open>size()\<close> is
  the number of distinct keys of the input, which is the number of nodes.
\<close>

theorem KDTree_bulk:
  assumes "\<forall>e \<in> set v. length (fst e) = k"
  shows "distinct (keys (root (KDTree k v)))
       \<and> map_of (entries (root (KDTree k v))) = map_of (rev v)
       \<and> tree_size (KDTree k v) = card (fst ` set v)
       \<and> length (entries (root (KDTree k v))) = tree_size (KDTree k v)"
proof -
  define s where "s = stable_sort (compareData 0) v"
  define q where "q = unique (\<lambda>a b. fst a = fst b) (rev s)"
  define u where "u = rev q"
  define R where "R = KDTree_helper k 0 u"
  have tree: "KDTree k v = \<lparr>root = R, treeSize = length u\<rparr>"
    by (simp add: KDTree_def Let_def R_def u_def q_def s_def)
  have "sorted_wrt (\<lambda>a b. \<not> compareData 0 a b) (rev s)"
    using sorted_key_stable_sort [OF assms, of 0] by (simp only: s_def sorted_wrt_rev)
  moreover have "\<forall>e \<in> set (rev s). length (fst e) = k"
    using assms by (simp only: s_def set_rev set_stable_sort)
  ultimately have "sorted_wrt (\<lambda>a b. compareData 0 b a) q"
    unfolding q_def by (intro unique_strict)
  then have dq: "distinct (map fst q)"
    by (rule strict_sorted_distinct_keys)
  then have du: "distinct (map fst u)"
    by (simp only: u_def distinct_keys_rev)
  have "map_of q = map_of (rev s)"
    by (simp only: q_def map_of_unique)
  also have "\<dots> = map_of (rev v)"
    by (simp only: s_def map_of_rev_stable_sort)
  finally have mq: "map_of q = map_of (rev v)" .
  have mu: "map_of u = map_of (rev v)"
    using map_of_rev_distinct [OF dq] mq by (simp only: u_def)
  have "mset (entries R) = mset u"
    unfolding R_def by (rule KDTree_helper_entries)
  from map_of_mset_eq [OF this du]
  have dR: "distinct (map fst (entries R))" and mR: "map_of (entries R) = map_of u"
    and lR: "length (entries R) = length u"
    by blast+
  have "length u = length (map fst u)" by (simp only: length_map)
  also have "\<dots> = card (set (map fst u))"
    using du by (simp only: distinct_card)
  also have "set (map fst u) = dom (map_of u)"
    by (simp only: dom_map_of_conv_image_fst set_map)
  also have "\<dots> = fst ` set v"
    by (simp only: mu dom_map_of_conv_image_fst set_rev)
  finally have size: "length u = card (fst ` set v)" .
  have "root (KDTree k v) = R" "tree_size (KDTree k v) = length u"
    by (simp_all add: tree tree_size_def)
  then show ?thesis
    using dR mR mu size lR by (simp only: keys_def)
qed

theorem KDTree_bulk_witness:
  "list_all (\<lambda>e. length (fst e) = 2) [([1, 0 :: int], ''a''), ([2, 5], ''b''), ([1, 0], ''c'')]
   \<and> distinct (keys (root (KDTree 2 [([1, 0 :: int], ''a''), ([2, 5], ''b''), ([1, 0], ''c'')])))
   \<and> map_of (entries (root (KDTree 2 [([1, 0 :: int], ''a''), ([2, 5], ''b''), ([1, 0], ''c'')])))
       = map_of (rev [([1, 0 :: int], ''a''), ([2, 5], ''b''), ([1, 0], ''c'')])
   \<and> root (KDTree 2 [([1, 0 :: int], ''a''), ([2, 5], ''b''), ([1, 0], ''c'')])
       = Node Null [1, 0] ''c'' (Node Null [2, 5] ''b'' Null)
   \<and> tree_size (KDTree 2 [([1, 0 :: int], ''a''), ([2, 5], ''b''), ([1, 0], ''c'')]) = 2"
proof -
  let ?v = "[([1, 0 :: int], ''a''), ([2, 5], ''b''), ([1, 0], ''c'')]"
  have h: "\<forall>e \<in> set ?v. length (fst e) = 2" by simp
  have r: "root (KDTree 2 ?v) = Node Null [1, 0] ''c'' (Node Null [2, 5] ''b'' Null)"
    by code_simp
  have n: "tree_size (KDTree 2 ?v) = 2" by code_simp
  from KDTree_bulk [OF h] r n show ?thesis by simp
qed

subsection \<open>Every permitted outcome of \<^verbatim>\<open>std::nth_element\<close> builds the same tree\<close>

text \<open>
  What the standard promises of \<^verbatim>\<open>std::nth_element(first, nth, last, cmp)\<close>: the range is
  permuted, no element from \<^verbatim>\<open>nth\<close> on is less than an element before \<^verbatim>\<open>nth\<close>, and no
  element after \<^verbatim>\<open>nth\<close> is less than the element at \<^verbatim>\<open>nth\<close>.
\<close>

definition nth_element_post :: "nat \<Rightarrow> ('e \<Rightarrow> 'e \<Rightarrow> bool) \<Rightarrow> 'e list \<Rightarrow> 'e list \<Rightarrow> bool" where
  "nth_element_post n cmp v w \<longleftrightarrow>
     mset w = mset v
     \<and> (\<forall>i j. i < n \<and> n \<le> j \<and> j < length w \<longrightarrow> \<not> cmp (w ! j) (w ! i))
     \<and> (\<forall>j. n < j \<and> j < length w \<longrightarrow> \<not> cmp (w ! j) (w ! n))"

text \<open>
  \<open>built k DIM v t\<close>: \<^verbatim>\<open>KDTree_helper<DIM>(v, parent)\<close> can return the tree \<open>t\<close> when
  every call of \<^verbatim>\<open>std::nth_element\<close> is free to produce any outcome the standard
  permits.
\<close>

inductive built :: "nat \<Rightarrow> nat \<Rightarrow> ('a::linorder key \<times> 'v) list \<Rightarrow> ('a, 'v) tree \<Rightarrow> bool" for k where
  empty: "built k DIM [] Null"
| node: "v \<noteq> [] \<Longrightarrow> m = (length v - 1) div 2 \<Longrightarrow> nth_element_post m (compareData DIM) v w \<Longrightarrow>
     built k ((DIM + 1) mod k) (take m w) l \<Longrightarrow> built k ((DIM + 1) mod k) (drop (m + 1) w) r \<Longrightarrow>
     built k DIM v (Node l (fst (w ! m)) (snd (w ! m)) r)"

text \<open>Entries with pairwise distinct keys of \<open>k\<close> components each.\<close>

definition proper :: "nat \<Rightarrow> ('a key \<times> 'v) list \<Rightarrow> bool" where
  "proper k v \<longleftrightarrow> distinct (map fst v) \<and> (\<forall>e \<in> set v. length (fst e) = k)"

lemma proper_mset: "mset v = mset w \<Longrightarrow> proper k v \<Longrightarrow> proper k w"
proof -
  assume a: "mset v = mset w" "proper k v"
  then have "mset (map fst v) = mset (map fst w)" by (simp only: mset_map)
  then have "distinct (map fst w)" using a(2) mset_eq_imp_distinct_iff unfolding proper_def by blast
  moreover have "set w = set v" using a(1) by (metis set_mset_mset)
  ultimately show ?thesis using a(2) by (simp add: proper_def)
qed

lemma proper_take: "proper k v \<Longrightarrow> proper k (take n v)"
  unfolding proper_def by (metis distinct_take in_set_takeD take_map)

lemma proper_drop: "proper k v \<Longrightarrow> proper k (drop n v)"
  unfolding proper_def by (metis distinct_drop in_set_dropD drop_map)

lemma proper_total:
  assumes "proper k v" "a \<in> set v" "b \<in> set v" "a \<noteq> b"
  shows "compareData DIM a b \<or> compareData DIM b a"
proof -
  from assms have "fst a \<noteq> fst b"
    unfolding proper_def by (metis distinct_map inj_onD)
  moreover from assms have "length (fst a) = length (fst b)" by (simp add: proper_def)
  ultimately show ?thesis
    using compareKey_total [of "fst a" "fst b" DIM] by (simp add: compareData_def)
qed

lemma compareData_trans: "compareData DIM a b \<Longrightarrow> compareData DIM b c \<Longrightarrow> compareData DIM a c"
  unfolding compareData_def by (rule compareKey_trans)

lemma compareData_asym: "compareData DIM a b \<Longrightarrow> \<not> compareData DIM b a"
  using compareData_trans [of DIM a b a] by (auto simp: compareData_def)

lemma strictly_sorted_unique:
  assumes "sorted_wrt (compareData DIM) xs" "sorted_wrt (compareData DIM) ys" "mset xs = mset ys"
  shows "xs = ys"
  using assms
proof (induction xs arbitrary: ys)
  case Nil
  then show ?case by simp
next
  case (Cons x xs)
  then obtain y ys' where ys: "ys = y # ys'" by (cases ys) auto
  have sets: "set (x # xs) = set (y # ys')"
    using Cons.prems(3) ys by (metis set_mset_mset)
  have "x = y"
  proof (rule ccontr)
    assume ne: "x \<noteq> y"
    with sets have "x \<in> set ys'" "y \<in> set xs" by auto
    then have "compareData DIM y x" "compareData DIM x y"
      using Cons.prems(1,2) ys by auto
    then show False using compareData_asym by blast
  qed
  moreover have "mset xs = mset ys'"
    using Cons.prems(3) ys \<open>x = y\<close> by simp
  moreover have "sorted_wrt (compareData DIM) xs" "sorted_wrt (compareData DIM) ys'"
    using Cons.prems(1,2) ys by simp_all
  ultimately show ?case using Cons.IH ys by blast
qed

lemma proper_sorted_strict:
  assumes "proper k v"
  shows "sorted_wrt (compareData DIM) (stable_sort (compareData DIM) v)"
proof -
  let ?s = "stable_sort (compareData DIM) v"
  have p: "proper k ?s" using assms by (rule proper_mset [rotated]) simp
  have le: "sorted_wrt (\<lambda>a b. \<not> compareData DIM b a) ?s"
    using sorted_key_stable_sort [of v k DIM] assms by (simp add: proper_def)
  show ?thesis
    unfolding sorted_wrt_iff_nth_less
  proof (intro allI impI)
    fix i j assume ij: "i < j" "j < length ?s"
    then have "\<not> compareData DIM (?s ! j) (?s ! i)"
      using le by (simp add: sorted_wrt_iff_nth_less)
    moreover have "?s ! i \<noteq> ?s ! j"
      using p ij unfolding proper_def by (metis distinct_map nth_eq_iff_index_eq order_less_trans nat_neq_iff)
    moreover have "?s ! i \<in> set ?s" "?s ! j \<in> set ?s" using ij by (simp_all del: set_stable_sort)
    ultimately show "compareData DIM (?s ! i) (?s ! j)"
      using proper_total [OF p] by blast
  qed
qed

lemma stable_sort_mset_eq:
  assumes "mset v = mset w" "proper k v"
  shows "stable_sort (compareData DIM) v = stable_sort (compareData DIM) w"
proof (rule strictly_sorted_unique)
  show "sorted_wrt (compareData DIM) (stable_sort (compareData DIM) v)"
    by (rule proper_sorted_strict [OF assms(2)])
  show "sorted_wrt (compareData DIM) (stable_sort (compareData DIM) w)"
    by (rule proper_sorted_strict [OF proper_mset [OF assms]])
  show "mset (stable_sort (compareData DIM) v) = mset (stable_sort (compareData DIM) w)"
    using assms(1) by simp
qed

lemma KDTree_helper_mset:
  assumes "mset v = mset w" "proper k' v"
  shows "KDTree_helper k DIM v = KDTree_helper k DIM w"
proof (cases "v = []")
  case True
  with assms(1) show ?thesis by simp
next
  case False
  then have w: "w \<noteq> []" using assms(1) by auto
  have len: "length v = length w" using assms(1) by (rule mset_eq_length)
  show ?thesis
    by (simp only: KDTree_helper_step [OF False] KDTree_helper_step [OF w] len
        nth_element_def stable_sort_mset_eq [OF assms, of DIM])
qed

lemma nth_element_post_sorted:
  assumes p: "proper k v" and post: "nth_element_post m (compareData DIM) v w" and m: "m < length v"
  shows "w ! m = stable_sort (compareData DIM) v ! m
       \<and> mset (take m w) = mset (take m (stable_sort (compareData DIM) v))
       \<and> mset (drop (Suc m) w) = mset (drop (Suc m) (stable_sort (compareData DIM) v))"
proof -
  let ?cmp = "compareData DIM"
  define A where "A = take m w"
  define B where "B = drop (Suc m) w"
  define x where "x = w ! m"
  from post have ms: "mset w = mset v"
    and part: "\<And>i j. i < m \<Longrightarrow> m \<le> j \<Longrightarrow> j < length w \<Longrightarrow> \<not> ?cmp (w ! j) (w ! i)"
    and nth: "\<And>j. m < j \<Longrightarrow> j < length w \<Longrightarrow> \<not> ?cmp (w ! j) (w ! m)"
    by (auto simp: nth_element_post_def)
  have len: "length w = length v" using ms by (rule mset_eq_length)
  with m have mw: "m < length w" by simp
  have w: "w = A @ x # B"
    unfolding A_def B_def x_def by (rule id_take_nth_drop [OF mw])
  have pw: "proper k w" using ms p by (rule proper_mset [OF sym])
  have dw: "distinct w" using pw unfolding proper_def by (auto simp: distinct_map)
  have xin: "x \<in> set w" unfolding x_def using mw by simp
  have Ax: "?cmp a x" if "a \<in> set A" for a
  proof -
    from that obtain i where i: "i < m" "a = w ! i"
      unfolding A_def using mw by (auto simp: in_set_conv_nth)
    then have "\<not> ?cmp x a" unfolding x_def using part [of i m] mw by simp
    moreover have "a \<noteq> x" unfolding x_def using i mw dw by (simp add: nth_eq_iff_index_eq)
    moreover have "a \<in> set w" using i mw by simp
    ultimately show ?thesis using proper_total [OF pw _ xin] by blast
  qed
  have xB: "?cmp x b" if "b \<in> set B" for b
  proof -
    from that obtain j where j: "m < j" "j < length w" "b = w ! j"
      unfolding B_def by (auto simp: in_set_conv_nth) (metis add_Suc less_add_Suc1 less_diff_conv add.commute)
    then have "\<not> ?cmp b x" unfolding x_def using nth [of j] by simp
    moreover have "b \<noteq> x" unfolding x_def using j mw dw by (simp add: nth_eq_iff_index_eq)
    moreover have "b \<in> set w" using j by simp
    ultimately show ?thesis using proper_total [OF pw xin] by blast
  qed
  have pA: "proper k A" and pB: "proper k B"
    unfolding A_def B_def using pw by (rule proper_take, rule proper_drop)
  let ?s = "stable_sort ?cmp A @ x # stable_sort ?cmp B"
  have AB: "?cmp a b" if "a \<in> set A" "b \<in> set B" for a b
    using Ax [OF that(1)] xB [OF that(2)] by (rule compareData_trans)
  have "sorted_wrt ?cmp ?s"
    using proper_sorted_strict [OF pA, of DIM] proper_sorted_strict [OF pB, of DIM] Ax xB AB
    by (simp add: sorted_wrt_append)
  moreover have "sorted_wrt ?cmp (stable_sort ?cmp v)"
    by (rule proper_sorted_strict [OF p])
  moreover have "mset ?s = mset (stable_sort ?cmp v)"
  proof -
    have "mset ?s = mset (A @ x # B)" by simp
    then show ?thesis using w ms by simp
  qed
  ultimately have eq: "stable_sort ?cmp v = ?s"
    using strictly_sorted_unique by metis
  have lA: "length (stable_sort ?cmp A) = m"
    unfolding A_def using mw by simp
  have "take m ?s = stable_sort ?cmp A" "?s ! m = x" "drop (Suc m) ?s = stable_sort ?cmp B"
    using lA by (simp_all add: nth_append)
  then show ?thesis
    unfolding eq by (simp add: A_def B_def x_def)
qed

lemma built_unique:
  assumes "built k DIM v t" "proper k' v"
  shows "t = KDTree_helper k DIM v"
  using assms
proof (induction rule: built.induct)
  case (empty DIM)
  then show ?case by simp
next
  case (node v m DIM w l r)
  let ?s = "nth_element m (compareData DIM) v"
  have ms: "mset w = mset v" using node.hyps(3) by (simp add: nth_element_post_def)
  have pw: "proper k' w" using ms node.prems by (rule proper_mset [OF sym])
  have mv: "m < length v" using node.hyps(1,2) median_index_less [of v] by simp
  from nth_element_post_sorted [OF node.prems node.hyps(3) mv]
  have mid: "w ! m = ?s ! m" and lo: "mset (take m w) = mset (take m ?s)"
    and hi: "mset (drop (Suc m) w) = mset (drop (Suc m) ?s)"
    by (simp_all add: nth_element_def)
  have "l = KDTree_helper k ((DIM + 1) mod k) (take m w)"
    using node.IH(1) proper_take [OF pw] by blast
  also have "\<dots> = KDTree_helper k ((DIM + 1) mod k) (take m ?s)"
    using lo proper_take [OF pw] by (rule KDTree_helper_mset)
  finally have l: "l = KDTree_helper k ((DIM + 1) mod k) (take m ?s)" .
  have "r = KDTree_helper k ((DIM + 1) mod k) (drop (m + 1) w)"
    using node.IH(2) proper_drop [OF pw] by blast
  also have "\<dots> = KDTree_helper k ((DIM + 1) mod k) (drop (m + 1) ?s)"
    using hi proper_drop [OF pw, of "m + 1"] by (intro KDTree_helper_mset) simp_all
  finally have r: "r = KDTree_helper k ((DIM + 1) mod k) (drop (m + 1) ?s)" .
  show ?case
    unfolding KDTree_helper_step [OF node.hyps(1)] node.hyps(2) [symmetric] l r mid ..
qed

lemma nth_element_meets_post:
  assumes "\<forall>e \<in> set v. length (fst e) = k"
  shows "nth_element_post n (compareData DIM) v (nth_element n (compareData DIM) v)"
proof -
  have "sorted_wrt (\<lambda>a b. \<not> compareData DIM b a) (stable_sort (compareData DIM) v)"
    by (rule sorted_key_stable_sort [OF assms])
  then show ?thesis
    by (simp add: nth_element_post_def nth_element_def sorted_wrt_iff_nth_less)
qed

lemma KDTree_helper_built:
  "\<forall>e \<in> set v. length (fst e) = k' \<Longrightarrow> built k DIM v (KDTree_helper k DIM v)"
proof (induction "length v" arbitrary: v DIM rule: less_induct)
  case less
  show ?case
  proof (cases "v = []")
    case True
    then show ?thesis by (simp add: built.empty)
  next
    case False
    let ?m = "(length v - 1) div 2"
    let ?s = "nth_element ?m (compareData DIM) v"
    have m: "?m < length ?s" using False median_index_less [of v] by simp
    have sub: "set (take ?m ?s) \<subseteq> set v" "set (drop (?m + 1) ?s) \<subseteq> set v"
      using set_take_subset [of ?m ?s] set_drop_subset [of "?m + 1" ?s]
      by (simp_all add: nth_element_def)
    have "built k ((DIM + 1) mod k) (take ?m ?s) (KDTree_helper k ((DIM + 1) mod k) (take ?m ?s))"
      using m sub(1) less.prems by (intro less) auto
    moreover have "built k ((DIM + 1) mod k) (drop (?m + 1) ?s)
        (KDTree_helper k ((DIM + 1) mod k) (drop (?m + 1) ?s))"
      using m sub(2) less.prems by (intro less) auto
    ultimately have "built k DIM v (Node (KDTree_helper k ((DIM + 1) mod k) (take ?m ?s))
        (fst (?s ! ?m)) (snd (?s ! ?m)) (KDTree_helper k ((DIM + 1) mod k) (drop (?m + 1) ?s)))"
      using False nth_element_meets_post [OF less.prems, of ?m DIM]
      by (intro built.node) simp_all
    then show ?thesis by (simp only: KDTree_helper_step [OF False])
  qed
qed

lemma deduplicated_proper:
  assumes "\<forall>e \<in> set v. length (fst e) = k"
  shows "proper k (rev (unique (\<lambda>a b. fst a = fst b) (rev (stable_sort (compareData 0) v))))"
proof -
  define s where "s = stable_sort (compareData 0) v"
  define q where "q = unique (\<lambda>a b. fst a = fst b) (rev s)"
  have "sorted_wrt (\<lambda>a b. \<not> compareData 0 a b) (rev s)"
    using sorted_key_stable_sort [OF assms, of 0] by (simp only: s_def sorted_wrt_rev)
  moreover have len: "\<forall>e \<in> set (rev s). length (fst e) = k"
    using assms by (simp only: s_def set_rev set_stable_sort)
  ultimately have "sorted_wrt (\<lambda>a b. compareData 0 b a) q"
    unfolding q_def by (intro unique_strict)
  then have "distinct (map fst q)"
    by (rule strict_sorted_distinct_keys)
  then have "distinct (map fst (rev q))"
    by (simp only: distinct_keys_rev)
  moreover have "set (rev q) \<subseteq> set (rev s)"
    unfolding q_def using set_unique_subset [of "\<lambda>a b. fst a = fst b" "rev s"] by (simp only: set_rev)
  ultimately show ?thesis
    using len unfolding proper_def q_def s_def by blast
qed

lemma KDTree_any_nth_element:
  assumes "\<forall>e \<in> set v. length (fst e) = k"
    and "built k 0 (rev (unique (\<lambda>a b. fst a = fst b) (rev (stable_sort (compareData 0) v)))) t"
  shows "t = root (KDTree k v)"
  using built_unique [OF assms(2) deduplicated_proper [OF assms(1)]]
  by (simp add: KDTree_def Let_def)

section \<open>The invariant of the specification\<close>

text \<open>
  The invariant as the specification words it: at a node of depth \<open>depth\<close>, with
  \<open>dim = depth mod k\<close>, every key of the left subtree is strictly less on \<open>dim\<close> and no
  key of the right subtree is.
\<close>

fun kd_invariant :: "nat \<Rightarrow> nat \<Rightarrow> ('a::linorder, 'v) tree \<Rightarrow> bool" where
  "kd_invariant k depth Null = True"
| "kd_invariant k depth (Node l nk nv r) =
     ((\<forall>x \<in> set (keys l). x ! (depth mod k) < nk ! (depth mod k))
      \<and> (\<forall>x \<in> set (keys r). \<not> x ! (depth mod k) < nk ! (depth mod k))
      \<and> kd_invariant k (depth + 1) l \<and> kd_invariant k (depth + 1) r)"

text \<open>
  C1. The invariant fails after bulk construction and after \<^verbatim>\<open>erase\<close>. The constructor
  partitions with \<^verbatim>\<open>compareData\<close>, which breaks a tie on the split dimension by the
  whole key, so a key that ties with the median goes to the left subtree; \<^verbatim>\<open>erase\<close> of a
  node with a left child only moves the greatest key of the left subtree up and leaves
  the keys that tie with it behind, on the left. \<^verbatim>\<open>find\<close>, \<^verbatim>\<open>insert\<close> and \<^verbatim>\<open>erase\<close>
  descend with \<^verbatim>\<open>strictLessKey\<close>, which sends a tie to the right: the key left behind is no
  longer found.
\<close>

theorem invariant_fails_bulk_and_erase:
  "root (KDTree 2 [([1, 0 :: int], ''a''), ([1, 1], ''b''), ([1, 2], ''c'')])
     = Node (Node Null [1, 0] ''a'' Null) [1, 1] ''b'' (Node Null [1, 2] ''c'' Null)
   \<and> kd_invariant 2 0 (root (KDTree 2 [([1, 0 :: int], ''a''), ([1, 1], ''b''), ([1, 2], ''c'')]))
       = False
   \<and> tree_find 2 [1, 0] (KDTree 2 [([1, 0 :: int], ''a''), ([1, 1], ''b''), ([1, 2], ''c'')])
       = Null
   \<and> tree_insert 2 [1, 1] ''c'' (tree_insert 2 [1, 0] ''b''
         (tree_insert 2 [5, 0 :: int] ''a'' KDTree_default))
       = \<lparr>root = Node (Node Null [1, 0] ''b'' (Node Null [1, 1] ''c'' Null)) [5, 0] ''a'' Null,
          treeSize = 3\<rparr>
   \<and> tree_erase 2 [5, 0 :: int]
         \<lparr>root = Node (Node Null [1, 0] ''b'' (Node Null [1, 1] ''c'' Null)) [5, 0] ''a'' Null,
          treeSize = 3\<rparr>
       = Some (True, \<lparr>root = Node (Node Null [1, 0] ''b'' Null) [1, 1] ''c'' Null, treeSize = 2\<rparr>)
   \<and> kd_invariant 2 0 (Node (Node Null [1, 0 :: int] ''b'' Null) [1, 1] ''c'' Null) = False
   \<and> tree_find 2 [1, 0 :: int]
         \<lparr>root = Node (Node Null [1, 0] ''b'' Null) [1, 1] ''c'' Null, treeSize = 2\<rparr>
       = Null"
  by code_simp

text \<open>
  C3. \<^verbatim>\<open>erase(key)\<close> can return \<^verbatim>\<open>false\<close> for a key that is present and that
  \<^verbatim>\<open>find\<close> finds. In the tree built from six pairs below, the root \<open>[2, 7]\<close> is matched
  and overwritten with the least key on dimension 0 of its right subtree, \<open>[3, 7]\<close>; that
  key ties with its parent \<open>[4, 7]\<close> on dimension 1 and sits to its left, so the descent
  that should delete it turns right and deletes nothing. The entry of \<open>[2, 7]\<close> is gone,
  \<open>[3, 7]\<close> is there twice, \<^verbatim>\<open>size()\<close> is still 6 and the result is \<^verbatim>\<open>false\<close>.
\<close>

theorem erase_present_key_returns_false:
  "root (KDTree 2 [([0, 0 :: int], ''r''), ([3, 7], ''a''), ([2, 7], ''b''), ([4, 7], ''c''),
                   ([1, 9], ''d''), ([5, 9], ''e'')])
     = Node (Node Null [0, 0] ''r'' (Node Null [1, 9] ''d'' Null)) [2, 7] ''b''
         (Node (Node Null [3, 7] ''a'' Null) [4, 7] ''c'' (Node Null [5, 9] ''e'' Null))
   \<and> tree_find 2 [2, 7]
        (KDTree 2 [([0, 0 :: int], ''r''), ([3, 7], ''a''), ([2, 7], ''b''), ([4, 7], ''c''),
                   ([1, 9], ''d''), ([5, 9], ''e'')])
     = root (KDTree 2 [([0, 0 :: int], ''r''), ([3, 7], ''a''), ([2, 7], ''b''), ([4, 7], ''c''),
                   ([1, 9], ''d''), ([5, 9], ''e'')])
   \<and> tree_erase 2 [2, 7]
        (KDTree 2 [([0, 0 :: int], ''r''), ([3, 7], ''a''), ([2, 7], ''b''), ([4, 7], ''c''),
                   ([1, 9], ''d''), ([5, 9], ''e'')])
     = Some (False,
         \<lparr>root = Node (Node Null [0, 0] ''r'' (Node Null [1, 9] ''d'' Null)) [3, 7] ''a''
                   (Node (Node Null [3, 7] ''a'' Null) [4, 7] ''c'' (Node Null [5, 9] ''e'' Null)),
          treeSize = 6\<rparr>)"
  by code_simp

section \<open>Nodes in memory and cursors\<close>

text \<open>
  The cursor operations follow \<^verbatim>\<open>parent\<close> links and compare node addresses, and
  \<^verbatim>\<open>erase(Iterator)\<close> updates nodes through a pointer into the middle of the tree. For
  them the nodes live in an explicit memory: a partial map from addresses to
  \<^verbatim>\<open>struct Node\<close>, \<open>None\<close> for an address that is not allocated (never allocated, or
  deleted). A \<^verbatim>\<open>Node *\<close> is an optional address, \<open>None\<close> for \<^verbatim>\<open>nullptr\<close>. Every function
  returns \<open>None\<close> when it reads or writes through a pointer to unallocated memory, or does
  not return.
\<close>

type_synonym ptr = "nat option"

record ('a, 'v) node =
  node_key :: "'a key"
  node_val :: 'v
  parent :: ptr
  left :: ptr
  right :: ptr

text \<open>
  The \<^verbatim>\<open>KDTree\<close> object together with the memory its nodes are in. \<open>next_addr\<close> is the
  allocator: \<^verbatim>\<open>new Node\<close> takes the next address, and no address is handed out twice.
\<close>

record ('a, 'v) kdtree_mem =
  memory :: "nat \<Rightarrow> ('a, 'v) node option"
  root_ptr :: ptr
  size_ctr :: nat
  next_addr :: nat

definition tree_end :: ptr where
  "tree_end = None"

text \<open>The loops \<^verbatim>\<open>while (node->left) node = node->left\<close> and its mirror image.\<close>

partial_function (option) descend_left :: "(nat \<Rightarrow> ('a, 'v) node option) \<Rightarrow> nat \<Rightarrow> nat option" where
  "descend_left m a =
     (case m a of None \<Rightarrow> None
      | Some n \<Rightarrow> (case left n of None \<Rightarrow> Some a | Some l \<Rightarrow> descend_left m l))"

partial_function (option) descend_right :: "(nat \<Rightarrow> ('a, 'v) node option) \<Rightarrow> nat \<Rightarrow> nat option" where
  "descend_right m a =
     (case m a of None \<Rightarrow> None
      | Some n \<Rightarrow> (case right n of None \<Rightarrow> Some a | Some r \<Rightarrow> descend_right m r))"

text \<open>
  \<^verbatim>\<open>do { temp = node; node = node->parent; } while (node && node->left != temp)\<close>,
  started at the node \<open>a\<close>, and its mirror image.
\<close>

partial_function (option) climb_from_right :: "(nat \<Rightarrow> ('a, 'v) node option) \<Rightarrow> nat \<Rightarrow> ptr option" where
  "climb_from_right m a =
     (case m a of None \<Rightarrow> None
      | Some n \<Rightarrow>
          (case parent n of None \<Rightarrow> Some None
           | Some p \<Rightarrow>
               (case m p of None \<Rightarrow> None
                | Some pn \<Rightarrow> if left pn \<noteq> Some a then climb_from_right m p else Some (Some p))))"

partial_function (option) climb_from_left :: "(nat \<Rightarrow> ('a, 'v) node option) \<Rightarrow> nat \<Rightarrow> ptr option" where
  "climb_from_left m a =
     (case m a of None \<Rightarrow> None
      | Some n \<Rightarrow>
          (case parent n of None \<Rightarrow> Some None
           | Some p \<Rightarrow>
               (case m p of None \<Rightarrow> None
                | Some pn \<Rightarrow> if right pn \<noteq> Some a then climb_from_left m p else Some (Some p))))"

declare descend_left.simps [code] descend_right.simps [code]
  climb_from_right.simps [code] climb_from_left.simps [code]

definition tree_begin :: "('a, 'v) kdtree_mem \<Rightarrow> ptr option" where
  "tree_begin t =
     (case root_ptr t of None \<Rightarrow> Some tree_end
      | Some r \<Rightarrow> map_option Some (descend_left (memory t) r))"

definition increment :: "('a, 'v) kdtree_mem \<Rightarrow> ptr \<Rightarrow> ptr option" where
  "increment t node =
     (case node of None \<Rightarrow> Some None
      | Some a \<Rightarrow>
          (case memory t a of None \<Rightarrow> None
           | Some n \<Rightarrow>
               (case right n of
                  Some r \<Rightarrow> map_option Some (descend_left (memory t) r)
                | None \<Rightarrow> climb_from_right (memory t) a)))"

definition decrement :: "('a, 'v) kdtree_mem \<Rightarrow> ptr \<Rightarrow> ptr option" where
  "decrement t node =
     (case node of
        None \<Rightarrow>
          (case root_ptr t of None \<Rightarrow> Some None
           | Some r \<Rightarrow> map_option Some (descend_right (memory t) r))
      | Some a \<Rightarrow>
          (case memory t a of None \<Rightarrow> None
           | Some n \<Rightarrow>
               (case left n of
                  Some l \<Rightarrow> map_option Some (descend_right (memory t) l)
                | None \<Rightarrow>
                    (case tree_begin t of None \<Rightarrow> None
                     | Some b \<Rightarrow> if Some a = b then Some (Some a)
                                else climb_from_left (memory t) a))))"

subsection \<open>The member templates on nodes in memory\<close>

text \<open>
  \<^verbatim>\<open>Node *&node\<close>, the first reference parameter of \<^verbatim>\<open>insert\<close>: the place a node
  pointer is stored in, which is \<^verbatim>\<open>root\<close> or a child field of a node.
\<close>

datatype slot = Root_slot | Left_slot nat | Right_slot nat

definition read_slot :: "('a, 'v) kdtree_mem \<Rightarrow> slot \<Rightarrow> ptr option" where
  "read_slot t s =
     (case s of Root_slot \<Rightarrow> Some (root_ptr t)
      | Left_slot a \<Rightarrow> map_option left (memory t a)
      | Right_slot a \<Rightarrow> map_option right (memory t a))"

definition write_slot :: "('a, 'v) kdtree_mem \<Rightarrow> slot \<Rightarrow> ptr \<Rightarrow> ('a, 'v) kdtree_mem option" where
  "write_slot t s p =
     (case s of Root_slot \<Rightarrow> Some (t\<lparr>root_ptr := p\<rparr>)
      | Left_slot a \<Rightarrow>
          (case memory t a of None \<Rightarrow> None
           | Some n \<Rightarrow> Some (t\<lparr>memory := (memory t)(a \<mapsto> n\<lparr>left := p\<rparr>)\<rparr>))
      | Right_slot a \<Rightarrow>
          (case memory t a of None \<Rightarrow> None
           | Some n \<Rightarrow> Some (t\<lparr>memory := (memory t)(a \<mapsto> n\<lparr>right := p\<rparr>)\<rparr>)))"

partial_function (option) find_mem ::
  "nat \<Rightarrow> nat \<Rightarrow> 'a::linorder key \<Rightarrow> ptr \<Rightarrow> (nat \<Rightarrow> ('a, 'v) node option) \<Rightarrow> ptr option" where
  "find_mem k DIM key node m =
     (case node of None \<Rightarrow> Some None
      | Some a \<Rightarrow>
          (case m a of None \<Rightarrow> None
           | Some n \<Rightarrow>
               if node_key n = key then Some (Some a)
               else if strictLessKey DIM Less key (node_key n)
               then find_mem k ((DIM + 1) mod k) key (left n) m
               else find_mem k ((DIM + 1) mod k) key (right n) m))"

partial_function (option) insert_mem ::
  "nat \<Rightarrow> nat \<Rightarrow> 'a::linorder key \<Rightarrow> 'v \<Rightarrow> slot \<Rightarrow> ptr \<Rightarrow> ('a, 'v) kdtree_mem
   \<Rightarrow> (bool \<times> ('a, 'v) kdtree_mem) option" where
  "insert_mem k DIM key val node par t =
     (case read_slot t node of None \<Rightarrow> None
      | Some None \<Rightarrow>
          (let a = next_addr t;
               t = t\<lparr>memory := (memory t)(a \<mapsto>
                      \<lparr>node_key = key, node_val = val, parent = par, left = None, right = None\<rparr>),
                    next_addr := a + 1\<rparr>
           in case write_slot t node (Some a) of None \<Rightarrow> None
              | Some t \<Rightarrow> Some (True, t\<lparr>size_ctr := size_ctr t + 1\<rparr>))
      | Some (Some a) \<Rightarrow>
          (case memory t a of None \<Rightarrow> None
           | Some n \<Rightarrow>
               if node_key n = key
               then Some (False, t\<lparr>memory := (memory t)(a \<mapsto> n\<lparr>node_val := val\<rparr>)\<rparr>)
               else if strictLessKey DIM Less key (node_key n)
               then insert_mem k ((DIM + 1) mod k) key val (Left_slot a) (Some a) t
               else insert_mem k ((DIM + 1) mod k) key val (Right_slot a) (Some a) t))"

definition compareNode_mem ::
  "nat \<Rightarrow> compare \<Rightarrow> (nat \<Rightarrow> ('a::linorder, 'v) node option) \<Rightarrow> ptr \<Rightarrow> ptr \<Rightarrow> ptr option" where
  "compareNode_mem DIM c m a b =
     (case a of None \<Rightarrow> Some b
      | Some x \<Rightarrow>
          (case b of None \<Rightarrow> Some a
           | Some y \<Rightarrow>
               (case m x of None \<Rightarrow> None
                | Some nx \<Rightarrow>
                    (case m y of None \<Rightarrow> None
                     | Some ny \<Rightarrow>
                         Some (if compareKey DIM c (node_key nx) (node_key ny) then a else b)))))"

partial_function (option) findMin_mem ::
  "nat \<Rightarrow> nat \<Rightarrow> nat \<Rightarrow> (nat \<Rightarrow> ('a::linorder, 'v) node option) \<Rightarrow> ptr \<Rightarrow> ptr option" where
  "findMin_mem k DIM_CMP DIM m node =
     (case node of None \<Rightarrow> Some None
      | Some a \<Rightarrow>
          (case m a of None \<Rightarrow> None
           | Some n \<Rightarrow>
               Option.bind (findMin_mem k DIM_CMP ((DIM + 1) mod k) m (left n)) (\<lambda>mn.
               Option.bind
                 (if DIM_CMP \<noteq> DIM
                  then Option.bind (findMin_mem k DIM_CMP ((DIM + 1) mod k) m (right n))
                         (compareNode_mem DIM_CMP Less m mn)
                  else Some mn) (\<lambda>mn.
               compareNode_mem DIM_CMP Less m mn (Some a)))))"

partial_function (option) findMax_mem ::
  "nat \<Rightarrow> nat \<Rightarrow> nat \<Rightarrow> (nat \<Rightarrow> ('a::linorder, 'v) node option) \<Rightarrow> ptr \<Rightarrow> ptr option" where
  "findMax_mem k DIM_CMP DIM m node =
     (case node of None \<Rightarrow> Some None
      | Some a \<Rightarrow>
          (case m a of None \<Rightarrow> None
           | Some n \<Rightarrow>
               Option.bind (findMax_mem k DIM_CMP ((DIM + 1) mod k) m (right n)) (\<lambda>mx.
               Option.bind
                 (if DIM_CMP \<noteq> DIM
                  then Option.bind (findMax_mem k DIM_CMP ((DIM + 1) mod k) m (left n))
                         (compareNode_mem DIM_CMP Greater m mx)
                  else Some mx) (\<lambda>mx.
               compareNode_mem DIM_CMP Greater m mx (Some a)))))"

text \<open>
  \<^verbatim>\<open>erase<DIM>(node, key)\<close> on nodes in memory. \<^verbatim>\<open>delete node\<close> makes the address
  unallocated; nothing else is changed by it, so a pointer to the node that is stored
  elsewhere keeps its value. The result is the pointer returned and the new state.
\<close>

definition overwrite_data ::
  "('a, 'v) kdtree_mem \<Rightarrow> nat \<Rightarrow> nat \<Rightarrow> ('a, 'v) kdtree_mem option" where
  "overwrite_data t a b =
     (case memory t a of None \<Rightarrow> None
      | Some n \<Rightarrow>
          (case memory t b of None \<Rightarrow> None
           | Some nb \<Rightarrow>
               Some (t\<lparr>memory := (memory t)(a \<mapsto> n\<lparr>node_key := node_key nb, node_val := node_val nb\<rparr>)\<rparr>)))"

partial_function (option) erase_mem ::
  "nat \<Rightarrow> nat \<Rightarrow> ptr \<Rightarrow> 'a::linorder key \<Rightarrow> ('a, 'v) kdtree_mem \<Rightarrow> (ptr \<times> ('a, 'v) kdtree_mem) option" where
  "erase_mem k DIM node key t =
     (case node of None \<Rightarrow> Some (None, t)
      | Some a \<Rightarrow>
          (case memory t a of None \<Rightarrow> None
           | Some n \<Rightarrow>
               if key = node_key n then
                 (if left n = None \<and> right n = None then
                    (let t = t\<lparr>size_ctr := size_ctr t - 1\<rparr>;
                         t = t\<lparr>memory := (memory t)(a := None)\<rparr>;
                         t = (if size_ctr t = 0 then t\<lparr>root_ptr := None\<rparr> else t)
                     in Some (None, t))
                  else if right n \<noteq> None then
                    (case findMin_mem k DIM ((DIM + 1) mod k) (memory t) (right n) of
                       None \<Rightarrow> None
                     | Some None \<Rightarrow> None
                     | Some (Some minNode) \<Rightarrow>
                         (case memory t minNode of None \<Rightarrow> None
                          | Some mn \<Rightarrow>
                              (case overwrite_data t a minNode of None \<Rightarrow> None
                               | Some t \<Rightarrow>
                                   Option.bind (erase_mem k ((DIM + 1) mod k) (right n) (node_key mn) t)
                                     (\<lambda>res. Option.bind (write_slot (snd res) (Right_slot a) (fst res))
                                        (\<lambda>t. Some (Some a, t))))))
                  else
                    (case findMax_mem k DIM ((DIM + 1) mod k) (memory t) (left n) of
                       None \<Rightarrow> None
                     | Some None \<Rightarrow> None
                     | Some (Some maxNode) \<Rightarrow>
                         (case memory t maxNode of None \<Rightarrow> None
                          | Some mx \<Rightarrow>
                              (case overwrite_data t a maxNode of None \<Rightarrow> None
                               | Some t \<Rightarrow>
                                   Option.bind (erase_mem k ((DIM + 1) mod k) (left n) (node_key mx) t)
                                     (\<lambda>res. Option.bind (write_slot (snd res) (Left_slot a) (fst res))
                                        (\<lambda>t. Some (Some a, t)))))))
               else if strictLessKey DIM Less key (node_key n) then
                 Option.bind (erase_mem k ((DIM + 1) mod k) (left n) key t)
                   (\<lambda>res. Option.bind (write_slot (snd res) (Left_slot a) (fst res))
                      (\<lambda>t. Some (Some a, t)))
               else
                 Option.bind (erase_mem k ((DIM + 1) mod k) (right n) key t)
                   (\<lambda>res. Option.bind (write_slot (snd res) (Right_slot a) (fst res))
                      (\<lambda>t. Some (Some a, t)))))"

partial_function (option) eraseDynamic ::
  "nat \<Rightarrow> nat \<Rightarrow> nat \<Rightarrow> nat \<Rightarrow> ('a::linorder, 'v) kdtree_mem \<Rightarrow> (ptr \<times> ('a, 'v) kdtree_mem) option" where
  "eraseDynamic k DIM node dim t =
     (let dim = (if dim \<ge> k then dim mod k else dim)
      in if dim = DIM
         then (case memory t node of None \<Rightarrow> None
               | Some n \<Rightarrow> erase_mem k DIM (Some node) (node_key n) t)
         else eraseDynamic k ((DIM + 1) mod k) node dim t)"

text \<open>The loop of \<^verbatim>\<open>erase(Iterator)\<close> that counts the ancestors of the node.\<close>

partial_function (option) count_depth ::
  "(nat \<Rightarrow> ('a, 'v) node option) \<Rightarrow> ptr \<Rightarrow> nat \<Rightarrow> nat option" where
  "count_depth m temp depth =
     (case temp of None \<Rightarrow> Some depth
      | Some a \<Rightarrow>
          (case m a of None \<Rightarrow> None
           | Some n \<Rightarrow> count_depth m (parent n) (depth + 1)))"

declare find_mem.simps [code] insert_mem.simps [code] findMin_mem.simps [code]
  findMax_mem.simps [code] erase_mem.simps [code] eraseDynamic.simps [code]
  count_depth.simps [code]

subsection \<open>The public interface on nodes in memory\<close>

definition KDTree_mem_default :: "('a, 'v) kdtree_mem" where
  "KDTree_mem_default = \<lparr>memory = (\<lambda>_. None), root_ptr = None, size_ctr = 0, next_addr = 0\<rparr>"

definition mem_find :: "nat \<Rightarrow> 'a::linorder key \<Rightarrow> ('a, 'v) kdtree_mem \<Rightarrow> ptr option" where
  "mem_find k key t = find_mem k 0 key (root_ptr t) (memory t)"

definition mem_insert ::
  "nat \<Rightarrow> 'a::linorder key \<Rightarrow> 'v \<Rightarrow> ('a, 'v) kdtree_mem \<Rightarrow> ('a, 'v) kdtree_mem option" where
  "mem_insert k key val t = map_option snd (insert_mem k 0 key val Root_slot None t)"

text \<open>
  \<^verbatim>\<open>Iterator erase(Iterator it)\<close>: the cursor returned and the new state. The pointer
  \<^verbatim>\<open>eraseDynamic\<close> returns is dropped.
\<close>

definition erase_cursor ::
  "nat \<Rightarrow> ptr \<Rightarrow> ('a::linorder, 'v) kdtree_mem \<Rightarrow> (ptr \<times> ('a, 'v) kdtree_mem) option" where
  "erase_cursor k it t =
     (case it of None \<Rightarrow> Some (it, t)
      | Some node \<Rightarrow>
          (case memory t node of None \<Rightarrow> None
           | Some n \<Rightarrow>
               (let it = (if left n = None \<and> right n = None then parent n else it)
                in case count_depth (memory t) (parent n) 0 of None \<Rightarrow> None
                   | Some depth \<Rightarrow>
                       (case eraseDynamic k 0 node (depth mod k) t of None \<Rightarrow> None
                        | Some res \<Rightarrow> Some (it, snd res)))))"

definition mem_size :: "('a, 'v) kdtree_mem \<Rightarrow> nat" where
  "mem_size t = size_ctr t"

section \<open>Cursors on a linked tree\<close>

text \<open>
  The shape of a linked tree: which address is the root, and which addresses its left and
  right subtrees occupy. \<open>laid_out m par s\<close> says that the memory \<open>m\<close> holds a tree of
  shape \<open>s\<close> below a node \<open>par\<close>: every node is allocated, its child fields point to the
  roots of its subtrees and its \<^verbatim>\<open>parent\<close> field points back. \<open>addrs\<close> is the in-order
  sequence of the nodes of the tree seen as a plain binary tree.
\<close>

datatype layout = Tip | Bin layout nat layout

fun addrs :: "layout \<Rightarrow> nat list" where
  "addrs Tip = []"
| "addrs (Bin l a r) = addrs l @ a # addrs r"

fun top :: "layout \<Rightarrow> ptr" where
  "top Tip = None"
| "top (Bin l a r) = Some a"

text \<open>The node reached from the root by following \<^verbatim>\<open>left\<close> as long as there is one.\<close>

fun leftmost_of :: "layout \<Rightarrow> ptr" where
  "leftmost_of Tip = None"
| "leftmost_of (Bin Tip a r) = Some a"
| "leftmost_of (Bin l a r) = leftmost_of l"

fun laid_out :: "(nat \<Rightarrow> ('a, 'v) node option) \<Rightarrow> ptr \<Rightarrow> layout \<Rightarrow> bool" where
  "laid_out m par Tip = True"
| "laid_out m par (Bin l a r) =
     (case m a of None \<Rightarrow> False
      | Some n \<Rightarrow> parent n = par \<and> left n = top l \<and> right n = top r
          \<and> laid_out m (Some a) l \<and> laid_out m (Some a) r)"

text \<open>
  A \<^verbatim>\<open>KDTree\<close> object is a tree of shape \<open>lay\<close>: \<^verbatim>\<open>root\<close> points to its root, its nodes
  are pairwise different and \<^verbatim>\<open>treeSize\<close> counts them.
\<close>

definition tree_shape :: "('a, 'v) kdtree_mem \<Rightarrow> layout \<Rightarrow> bool" where
  "tree_shape t lay =
     (root_ptr t = top lay \<and> laid_out (memory t) None lay \<and> distinct (addrs lay)
      \<and> size_ctr t = length (addrs lay))"

text \<open>The pairs of neighbours of a sequence.\<close>

fun steps_of :: "'x list \<Rightarrow> ('x \<times> 'x) list" where
  "steps_of (x # y # ys) = (x, y) # steps_of (y # ys)"
| "steps_of _ = []"

lemma top_in_addrs: "top s = Some a \<Longrightarrow> a \<in> set (addrs s)"
  by (cases s) auto

lemma addrs_Nil [simp]: "addrs s = [] \<longleftrightarrow> s = Tip"
  by (cases s) auto

lemma leftmost_of_hd: "leftmost_of s = (if s = Tip then None else Some (hd (addrs s)))"
  by (induction s rule: leftmost_of.induct) (simp_all add: hd_append)

lemma steps_of_Cons: "steps_of (x # xs) = (if xs = [] then [] else [(x, hd xs)]) @ steps_of xs"
  by (cases xs) simp_all

lemma steps_of_append:
  "steps_of (xs @ a # ys) =
     steps_of xs @ (if xs = [] then [] else [(last xs, a)])
     @ (if ys = [] then [] else [(a, hd ys)]) @ steps_of ys"
proof (induction xs)
  case Nil
  show ?case by (simp add: steps_of_Cons)
next
  case (Cons x xs)
  have "steps_of ((x # xs) @ a # ys) = (x, hd (xs @ a # ys)) # steps_of (xs @ a # ys)"
    by (simp add: steps_of_Cons)
  also have "\<dots> = (x, hd (xs @ a # ys)) # steps_of xs @ (if xs = [] then [] else [(last xs, a)])
     @ (if ys = [] then [] else [(a, hd ys)]) @ steps_of ys"
    by (simp only: Cons.IH)
  also have "\<dots> = steps_of (x # xs) @ (if x # xs = [] then [] else [(last (x # xs), a)])
     @ (if ys = [] then [] else [(a, hd ys)]) @ steps_of ys"
    by (cases xs) simp_all
  finally show ?case .
qed

lemma descend_left_hd:
  "laid_out m par (Bin l a r) \<Longrightarrow> descend_left m a = Some (hd (addrs (Bin l a r)))"
proof (induction l arbitrary: par a r)
  case Tip
  then show ?case
    by (subst descend_left.simps) (auto split: option.splits)
next
  case (Bin ll b lr)
  from Bin.prems obtain n where n: "m a = Some n" "left n = Some b" "laid_out m (Some a) (Bin ll b lr)"
    by (auto split: option.splits)
  from Bin.IH(1) [OF n(3)] have "descend_left m b = Some (hd (addrs (Bin ll b lr)))" .
  then show ?case
    using n by (subst descend_left.simps) (simp add: hd_append)
qed

lemma descend_right_last:
  "laid_out m par (Bin l a r) \<Longrightarrow> descend_right m a = Some (last (addrs (Bin l a r)))"
proof (induction r arbitrary: par a l)
  case Tip
  then show ?case
    by (subst descend_right.simps) (auto split: option.splits)
next
  case (Bin rl b rr)
  from Bin.prems obtain n where n: "m a = Some n" "right n = Some b" "laid_out m (Some a) (Bin rl b rr)"
    by (auto split: option.splits)
  from Bin.IH(2) [OF n(3)] have "descend_right m b = Some (last (addrs (Bin rl b rr)))" .
  then show ?case
    using n by (subst descend_right.simps) simp
qed

lemma last_has_no_right:
  "laid_out m par (Bin l a r) \<Longrightarrow> \<exists>n. m (last (addrs (Bin l a r))) = Some n \<and> right n = None"
proof (induction r arbitrary: par a l)
  case Tip
  then show ?case by (auto split: option.splits)
next
  case (Bin rl b rr)
  from Bin.prems have "laid_out m (Some a) (Bin rl b rr)"
    by (auto split: option.splits)
  from Bin.IH(2) [OF this] show ?case by simp
qed

lemma hd_addrs_left: "hd (addrs (Bin (Bin ll b lr) a r)) = hd (addrs (Bin ll b lr))"
  by (simp add: hd_append)

lemma last_addrs_right: "last (addrs (Bin l a (Bin rl b rr))) = last (addrs (Bin rl b rr))"
  by simp

lemma distinct_addrs_sub:
  "distinct (addrs (Bin l a r)) \<Longrightarrow> distinct (addrs l) \<and> distinct (addrs r)"
  by simp

lemma hd_has_no_left:
  "laid_out m par (Bin l a r) \<Longrightarrow> \<exists>n. m (hd (addrs (Bin l a r))) = Some n \<and> left n = None"
proof (induction l arbitrary: par a r)
  case Tip
  then show ?case by (auto split: option.splits)
next
  case (Bin ll b lr)
  from Bin.prems have "laid_out m (Some a) (Bin ll b lr)"
    by (auto split: option.splits)
  from Bin.IH(1) [OF this] show ?case by (simp only: hd_addrs_left)
qed

lemma climb_from_right_last:
  "laid_out m par (Bin l a r) \<Longrightarrow> distinct (addrs (Bin l a r)) \<Longrightarrow>
   climb_from_right m (last (addrs (Bin l a r))) = climb_from_right m a"
proof (induction r arbitrary: par a l)
  case Tip
  then show ?case by simp
next
  case (Bin rl b rr)
  from Bin.prems(1) obtain n where n: "m a = Some n" "left n = top l"
    and sub: "laid_out m (Some a) (Bin rl b rr)"
    by (auto split: option.splits)
  from sub obtain nb where nb: "m b = Some nb" "parent nb = Some a"
    by (auto split: option.splits)
  have "top l \<noteq> Some b"
    using top_in_addrs [of l b] Bin.prems(2) by auto
  then have step: "climb_from_right m b = climb_from_right m a"
    using n nb by (subst climb_from_right.simps) simp
  have "climb_from_right m (last (addrs (Bin rl b rr))) = climb_from_right m b"
    using Bin.IH(2) [OF sub] Bin.prems(2) by simp
  with step show ?case by simp
qed

lemma climb_from_left_hd:
  "laid_out m par (Bin l a r) \<Longrightarrow> distinct (addrs (Bin l a r)) \<Longrightarrow>
   climb_from_left m (hd (addrs (Bin l a r))) = climb_from_left m a"
proof (induction l arbitrary: par a r)
  case Tip
  then show ?case by simp
next
  case (Bin ll b lr)
  from Bin.prems(1) obtain n where n: "m a = Some n" "right n = top r"
    and sub: "laid_out m (Some a) (Bin ll b lr)"
    by (auto split: option.splits)
  from sub obtain nb where nb: "m b = Some nb" "parent nb = Some a"
    by (auto split: option.splits)
  have "top r \<noteq> Some b"
    using top_in_addrs [of r b] Bin.prems(2) by auto
  then have step: "climb_from_left m b = climb_from_left m a"
    using n nb by (subst climb_from_left.simps) simp
  have "distinct (addrs (Bin ll b lr))"
    using distinct_addrs_sub [OF Bin.prems(2)] by blast
  from Bin.IH(1) [OF sub this] step show ?case
    by (simp only: hd_addrs_left)
qed

text \<open>
  Client loops. \<open>walk n step it\<close> applies \<^verbatim>\<open>++it\<close> (or \<^verbatim>\<open>--it\<close>) \<open>n\<close> times and
  returns the cursor values \<open>it\<close>, \<open>step it\<close>, ... it went through;
  \<open>visit_all t it\<close> is \<^verbatim>\<open>for (; it != end(); ++it) visit(it)\<close> and returns the nodes
  visited, \<open>None\<close> if the loop does not return.
\<close>

fun walk :: "nat \<Rightarrow> (ptr \<Rightarrow> ptr option) \<Rightarrow> ptr \<Rightarrow> ptr list option" where
  "walk 0 step it = Some [it]"
| "walk (Suc n) step it =
     (case step it of None \<Rightarrow> None | Some nx \<Rightarrow> map_option ((#) it) (walk n step nx))"

partial_function (option) visit_all :: "('a, 'v) kdtree_mem \<Rightarrow> ptr \<Rightarrow> nat list option" where
  "visit_all t it =
     (case it of None \<Rightarrow> Some []
      | Some a \<Rightarrow>
          Option.bind (increment t it) (\<lambda>nx.
          Option.bind (visit_all t nx) (\<lambda>rest. Some (a # rest))))"

lemma steps_of_cases:
  assumes "(x, y) \<in> set (steps_of (addrs (Bin l a r)))"
  shows "(x, y) \<in> set (steps_of (addrs l)) \<or> (l \<noteq> Tip \<and> x = last (addrs l) \<and> y = a)
       \<or> (r \<noteq> Tip \<and> x = a \<and> y = hd (addrs r)) \<or> (x, y) \<in> set (steps_of (addrs r))"
proof -
  have "addrs (Bin l a r) = addrs l @ a # addrs r" by simp
  with assms have "(x, y) \<in> set (steps_of (addrs l) @ (if addrs l = [] then [] else [(last (addrs l), a)])
     @ (if addrs r = [] then [] else [(a, hd (addrs r))]) @ steps_of (addrs r))"
    by (simp only: steps_of_append)
  then show ?thesis
    by (auto split: if_splits)
qed

lemma increment_step:
  "laid_out (memory t) par s \<Longrightarrow> distinct (addrs s) \<Longrightarrow> (x, y) \<in> set (steps_of (addrs s)) \<Longrightarrow>
   increment t (Some x) = Some (Some y)"
proof (induction s arbitrary: par)
  case Tip
  then show ?case by simp
next
  case (Bin l a r)
  let ?m = "memory t"
  from Bin.prems(1) obtain n where n: "?m a = Some n" "left n = top l" "right n = top r"
    and subl: "laid_out ?m (Some a) l" and subr: "laid_out ?m (Some a) r"
    by (auto split: option.splits)
  have dl: "distinct (addrs l)" and dr: "distinct (addrs r)"
    using distinct_addrs_sub [OF Bin.prems(2)] by blast+
  from steps_of_cases [OF Bin.prems(3)] show ?case
  proof (elim disjE conjE)
    assume "(x, y) \<in> set (steps_of (addrs l))"
    from Bin.IH(1) [OF subl dl this] show ?thesis .
  next
    assume "(x, y) \<in> set (steps_of (addrs r))"
    from Bin.IH(2) [OF subr dr this] show ?thesis .
  next
    assume l: "l \<noteq> Tip" and x: "x = last (addrs l)" and y: "y = a"
    from l obtain ll b lr where lb: "l = Bin ll b lr" by (cases l) auto
    from last_has_no_right [OF subl [unfolded lb]] obtain nx
      where nx: "?m x = Some nx" "right nx = None" by (auto simp: x lb)
    have up: "climb_from_right ?m x = climb_from_right ?m b"
      using climb_from_right_last [OF subl [unfolded lb] dl [unfolded lb]] by (simp add: x lb)
    from subl obtain nb where nb: "?m b = Some nb" "parent nb = Some a"
      by (auto simp: lb split: option.splits)
    have "climb_from_right ?m b = Some (Some a)"
      using nb n lb by (subst climb_from_right.simps) simp
    with up nx y show ?thesis by (simp add: increment_def)
  next
    assume r: "r \<noteq> Tip" and x: "x = a" and y: "y = hd (addrs r)"
    from r obtain rl b rr where rb: "r = Bin rl b rr" by (cases r) auto
    have "descend_left ?m b = Some (hd (addrs r))"
      using descend_left_hd [OF subr [unfolded rb]] by (simp only: rb)
    with n rb x y show ?thesis by (simp add: increment_def)
  qed
qed

lemma increment_last:
  assumes "laid_out (memory t) None s" "distinct (addrs s)" "s \<noteq> Tip"
  shows "increment t (Some (last (addrs s))) = Some None"
proof -
  let ?m = "memory t"
  from assms(3) obtain l a r where s: "s = Bin l a r" by (cases s) auto
  from last_has_no_right [OF assms(1) [unfolded s]] obtain nx
    where nx: "?m (last (addrs s)) = Some nx" "right nx = None" by (auto simp: s)
  have up: "climb_from_right ?m (last (addrs s)) = climb_from_right ?m a"
    using climb_from_right_last [OF assms(1) [unfolded s] assms(2) [unfolded s]] by (simp only: s)
  from assms(1) obtain n where "?m a = Some n" "parent n = None"
    by (auto simp: s split: option.splits)
  then have "climb_from_right ?m a = Some None"
    by (subst climb_from_right.simps) simp
  with up nx show ?thesis by (simp add: increment_def)
qed

lemma decrement_step_core:
  "laid_out m par s \<Longrightarrow> distinct (addrs s) \<Longrightarrow> (x, y) \<in> set (steps_of (addrs s)) \<Longrightarrow>
   \<exists>n. m y = Some n \<and>
       (case left n of Some l \<Rightarrow> descend_right m l = Some x
        | None \<Rightarrow> climb_from_left m y = Some (Some x))"
proof (induction s arbitrary: par)
  case Tip
  then show ?case by simp
next
  case (Bin l a r)
  from Bin.prems(1) obtain n where n: "m a = Some n" "left n = top l" "right n = top r"
    and subl: "laid_out m (Some a) l" and subr: "laid_out m (Some a) r"
    by (auto split: option.splits)
  have dl: "distinct (addrs l)" and dr: "distinct (addrs r)"
    using distinct_addrs_sub [OF Bin.prems(2)] by blast+
  from steps_of_cases [OF Bin.prems(3)] show ?case
  proof (elim disjE conjE)
    assume "(x, y) \<in> set (steps_of (addrs l))"
    from Bin.IH(1) [OF subl dl this] show ?thesis .
  next
    assume "(x, y) \<in> set (steps_of (addrs r))"
    from Bin.IH(2) [OF subr dr this] show ?thesis .
  next
    assume l: "l \<noteq> Tip" and x: "x = last (addrs l)" and y: "y = a"
    from l obtain ll b lr where lb: "l = Bin ll b lr" by (cases l) auto
    have "descend_right m b = Some (last (addrs l))"
      using descend_right_last [OF subl [unfolded lb]] by (simp only: lb)
    with n lb x y show ?thesis by simp
  next
    assume r: "r \<noteq> Tip" and x: "x = a" and y: "y = hd (addrs r)"
    from r obtain rl b rr where rb: "r = Bin rl b rr" by (cases r) auto
    from hd_has_no_left [OF subr [unfolded rb]] obtain ny
      where ny: "m y = Some ny" "left ny = None" by (auto simp: y rb)
    have up: "climb_from_left m y = climb_from_left m b"
      using climb_from_left_hd [OF subr [unfolded rb] dr [unfolded rb]] by (simp only: y rb)
    from subr obtain nb where nb: "m b = Some nb" "parent nb = Some a"
      by (auto simp: rb split: option.splits)
    have "climb_from_left m b = Some (Some a)"
      using nb n rb by (subst climb_from_left.simps) simp
    with up ny x show ?thesis by simp
  qed
qed

lemma steps_of_snd_in_tl: "(x, y) \<in> set (steps_of xs) \<Longrightarrow> y \<in> set (tl xs)"
  by (induction xs rule: steps_of.induct) auto

lemma tree_begin_shape:
  assumes "tree_shape t lay"
  shows "tree_begin t = Some (leftmost_of lay)"
proof (cases lay)
  case Tip
  with assms show ?thesis by (simp add: tree_shape_def tree_begin_def tree_end_def)
next
  case (Bin l a r)
  with assms have "laid_out (memory t) None (Bin l a r)" "root_ptr t = Some a"
    by (simp_all add: tree_shape_def)
  from descend_left_hd [OF this(1)] this(2) show ?thesis
    by (simp add: tree_begin_def leftmost_of_hd Bin)
qed

lemma decrement_step:
  assumes "tree_shape t lay" "(x, y) \<in> set (steps_of (addrs lay))"
  shows "decrement t (Some y) = Some (Some x)"
proof -
  from assms(1) have lo: "laid_out (memory t) None lay" and d: "distinct (addrs lay)"
    by (simp_all add: tree_shape_def)
  from decrement_step_core [OF lo d assms(2)] obtain n where n: "memory t y = Some n"
    and c: "case left n of Some l \<Rightarrow> descend_right (memory t) l = Some x
            | None \<Rightarrow> climb_from_left (memory t) y = Some (Some x)"
    by blast
  have "y \<in> set (tl (addrs lay))" using assms(2) by (rule steps_of_snd_in_tl)
  then have ne: "lay \<noteq> Tip" and "y \<noteq> hd (addrs lay)"
    using d by (cases "addrs lay"; auto)+
  then have "tree_begin t \<noteq> Some (Some y)"
    using tree_begin_shape [OF assms(1)] by (simp add: leftmost_of_hd)
  moreover have "\<exists>b. tree_begin t = Some b"
    using tree_begin_shape [OF assms(1)] by simp
  ultimately show ?thesis
    using n c by (auto simp: decrement_def split: option.splits)
qed

lemma decrement_end:
  assumes "tree_shape t lay"
  shows "decrement t tree_end = Some (if lay = Tip then None else Some (last (addrs lay)))"
proof (cases lay)
  case Tip
  with assms show ?thesis by (simp add: tree_shape_def decrement_def tree_end_def)
next
  case (Bin l a r)
  with assms have "laid_out (memory t) None (Bin l a r)" "root_ptr t = Some a"
    by (simp_all add: tree_shape_def)
  from descend_right_last [OF this(1)] this(2) show ?thesis
    by (simp add: decrement_def tree_end_def Bin)
qed

lemma decrement_begin:
  assumes "tree_shape t lay" "lay \<noteq> Tip"
  shows "decrement t (Some (hd (addrs lay))) = Some (Some (hd (addrs lay)))"
proof -
  from assms(2) obtain l a r where s: "lay = Bin l a r" by (cases lay) auto
  from assms(1) have lo: "laid_out (memory t) None (Bin l a r)"
    by (simp add: tree_shape_def s)
  from hd_has_no_left [OF lo] obtain n
    where "memory t (hd (addrs lay)) = Some n" "left n = None" by (auto simp: s)
  moreover have "tree_begin t = Some (Some (hd (addrs lay)))"
    using tree_begin_shape [OF assms(1)] assms(2) by (simp add: leftmost_of_hd)
  ultimately show ?thesis by (simp add: decrement_def)
qed

lemma steps_of_snoc: "steps_of (xs @ [x]) = steps_of xs @ (if xs = [] then [] else [(last xs, x)])"
  using steps_of_append [of xs x "[]"] by simp

lemma steps_of_rev: "set (steps_of (rev xs)) = (\<lambda>p. (snd p, fst p)) ` set (steps_of xs)"
proof (induction xs)
  case Nil
  then show ?case by simp
next
  case (Cons x xs)
  have "set (steps_of (rev (x # xs))) = set (steps_of (rev xs)) \<union> (if xs = [] then {} else {(hd xs, x)})"
    by (simp add: steps_of_snoc last_rev)
  also have "\<dots> = (\<lambda>p. (snd p, fst p)) ` set (steps_of (x # xs))"
    by (simp only: Cons.IH steps_of_Cons) auto
  finally show ?case .
qed

lemma walk_nonempty: "walk n step it = Some ys \<Longrightarrow> ys \<noteq> []"
  by (cases n) (auto split: option.splits)

lemma walk_snoc:
  "walk n step it = Some ys \<Longrightarrow> step (last ys) = Some z \<Longrightarrow> walk (Suc n) step it = Some (ys @ [z])"
proof (induction n arbitrary: it ys)
  case 0
  then show ?case by auto
next
  case (Suc n)
  from Suc.prems(1) obtain nx ys' where nx: "step it = Some nx" "walk n step nx = Some ys'"
    and ys: "ys = it # ys'"
    by (auto split: option.splits)
  have "ys' \<noteq> []" using nx(2) by (rule walk_nonempty)
  with Suc.prems(2) ys have "step (last ys') = Some z" by simp
  from Suc.IH [OF nx(2) this] have "walk (Suc n) step nx = Some (ys' @ [z])" .
  then show ?case
    using nx(1) ys by (simp del: walk.simps add: walk.simps(2) [of "Suc n"])
qed

lemma walk_pairs:
  assumes "\<forall>p \<in> set (steps_of xs). step (Some (fst p)) = Some (Some (snd p))" "xs \<noteq> []"
  shows "walk (length xs - 1) step (Some (hd xs)) = Some (map Some xs)"
  using assms
proof (induction xs rule: steps_of.induct)
  case (1 x y ys)
  then have "walk (length (y # ys) - 1) step (Some y) = Some (map Some (y # ys))"
    by simp
  moreover have "step (Some x) = Some (Some y)" using "1.prems" by simp
  ultimately show ?case by simp
qed simp_all

lemma visit_all_end: "visit_all t None = Some []"
  by (subst visit_all.simps) simp

lemma visit_all_pairs:
  assumes "\<forall>p \<in> set (steps_of xs). increment t (Some (fst p)) = Some (Some (snd p))" "xs \<noteq> []"
    and "increment t (Some (last xs)) = Some None"
  shows "visit_all t (Some (hd xs)) = Some xs"
  using assms
proof (induction xs)
  case Nil
  then show ?case by simp
next
  case (Cons x xs)
  show ?case
  proof (cases xs)
    case Nil
    with Cons.prems show ?thesis
      by (subst visit_all.simps) (simp add: visit_all_end)
  next
    case tail: (Cons y ys)
    have "visit_all t (Some (hd xs)) = Some xs"
      using Cons.prems tail by (intro Cons.IH) simp_all
    moreover have "increment t (Some x) = Some (Some y)"
      using Cons.prems(1) tail by simp
    ultimately show ?thesis
      using tail by (subst visit_all.simps) simp
  qed
qed

text \<open>
  C7. For every tree, \<^verbatim>\<open>begin()\<close> is the left-most node reachable from the root, the loop
  from \<^verbatim>\<open>begin()\<close> to \<^verbatim>\<open>end()\<close> returns and visits the nodes in the in-order sequence of
  the tree, each node once; for the empty tree \<^verbatim>\<open>begin()\<close> is \<^verbatim>\<open>end()\<close>.
\<close>

theorem forward_iteration_inorder:
  assumes "tree_shape t lay"
  shows "tree_begin t = Some (leftmost_of lay)
       \<and> visit_all t (leftmost_of lay) = Some (addrs lay)
       \<and> distinct (addrs lay)
       \<and> (root_ptr t = None \<longrightarrow> tree_begin t = Some tree_end)"
proof -
  from assms have lo: "laid_out (memory t) None lay" and d: "distinct (addrs lay)"
    by (simp_all add: tree_shape_def)
  have b: "tree_begin t = Some (leftmost_of lay)" by (rule tree_begin_shape [OF assms])
  have "visit_all t (leftmost_of lay) = Some (addrs lay)"
  proof (cases "lay = Tip")
    case True
    then show ?thesis by (subst visit_all.simps) simp
  next
    case False
    have "\<forall>p \<in> set (steps_of (addrs lay)). increment t (Some (fst p)) = Some (Some (snd p))"
      using increment_step [OF lo d] by auto
    moreover have "increment t (Some (last (addrs lay))) = Some None"
      by (rule increment_last [OF lo d False])
    ultimately have "visit_all t (Some (hd (addrs lay))) = Some (addrs lay)"
      using False by (intro visit_all_pairs) simp_all
    with False show ?thesis by (simp add: leftmost_of_hd)
  qed
  moreover have "root_ptr t = None \<longrightarrow> tree_begin t = Some tree_end"
    by (simp add: tree_begin_def)
  ultimately show ?thesis using b d by blast
qed

text \<open>
  C8. For every tree with \<open>n\<close> entries, \<open>n\<close> increments from \<^verbatim>\<open>begin()\<close> go through the
  entries \<open>fw\<close> and reach \<^verbatim>\<open>end()\<close>; \<open>n\<close> decrements from \<^verbatim>\<open>end()\<close> go through the
  entries \<open>bw\<close> and arrive at \<^verbatim>\<open>begin()\<close>; \<open>bw\<close> is the reverse of \<open>fw\<close>.
\<close>

theorem traversal_round_trip:
  assumes "tree_shape t lay"
  shows "\<exists>b fw bw. tree_begin t = Some b
       \<and> walk (mem_size t) (increment t) b = Some (fw @ [tree_end])
       \<and> walk (mem_size t) (decrement t) tree_end = Some (tree_end # bw)
       \<and> last (tree_end # bw) = b
       \<and> fw = map Some (addrs lay) \<and> bw = rev fw"
proof -
  from assms have lo: "laid_out (memory t) None lay" and d: "distinct (addrs lay)"
    and n: "mem_size t = length (addrs lay)"
    by (simp_all add: tree_shape_def mem_size_def)
  have b: "tree_begin t = Some (leftmost_of lay)" by (rule tree_begin_shape [OF assms])
  show ?thesis
  proof (cases "lay = Tip")
    case True
    with b n show ?thesis by (simp add: tree_end_def)
  next
    case False
    let ?xs = "addrs lay"
    have ne: "?xs \<noteq> []" using False by simp
    then have "length ?xs = Suc (length ?xs - 1)" by (cases ?xs) simp_all
    with n have eq: "mem_size t = Suc (length ?xs - 1)" by simp
    have "\<forall>p \<in> set (steps_of ?xs). increment t (Some (fst p)) = Some (Some (snd p))"
      using increment_step [OF lo d] by auto
    from walk_pairs [OF this ne]
    have "walk (length ?xs - 1) (increment t) (Some (hd ?xs)) = Some (map Some ?xs)" .
    moreover have "increment t (last (map Some ?xs)) = Some None"
      using increment_last [OF lo d False] ne by (simp add: last_map)
    ultimately have "walk (Suc (length ?xs - 1)) (increment t) (Some (hd ?xs))
        = Some (map Some ?xs @ [None])"
      by (rule walk_snoc)
    then have fw: "walk (mem_size t) (increment t) (leftmost_of lay) = Some (map Some ?xs @ [tree_end])"
      using False by (simp only: eq leftmost_of_hd tree_end_def if_False)
    have "\<forall>p \<in> set (steps_of (rev ?xs)). decrement t (Some (fst p)) = Some (Some (snd p))"
      using decrement_step [OF assms] by (auto simp: steps_of_rev)
    moreover have "rev ?xs \<noteq> []" using ne by simp
    ultimately have "walk (length (rev ?xs) - 1) (decrement t) (Some (hd (rev ?xs)))
        = Some (map Some (rev ?xs))"
      by (rule walk_pairs)
    then have bk: "walk (length ?xs - 1) (decrement t) (Some (last ?xs)) = Some (rev (map Some ?xs))"
      using ne by (simp add: hd_rev rev_map)
    have "decrement t tree_end = Some (Some (last ?xs))"
      using decrement_end [OF assms] False by simp
    with bk have "walk (Suc (length ?xs - 1)) (decrement t) tree_end
        = Some (tree_end # rev (map Some ?xs))"
      by simp
    then have bw: "walk (mem_size t) (decrement t) tree_end = Some (tree_end # rev (map Some ?xs))"
      by (simp only: eq)
    have "last (tree_end # rev (map Some ?xs)) = leftmost_of lay"
      using ne False by (simp add: leftmost_of_hd last_rev hd_map)
    with b fw bw show ?thesis by blast
  qed
qed

text \<open>
  C10. For every non-empty tree, decrementing a cursor equal to \<^verbatim>\<open>begin()\<close> returns and
  leaves it equal to \<^verbatim>\<open>begin()\<close>.
\<close>

theorem decrement_begin_unchanged:
  assumes "tree_shape t lay" "root_ptr t \<noteq> None"
  shows "\<exists>a. tree_begin t = Some (Some a) \<and> decrement t (Some a) = Some (Some a)"
proof -
  from assms have ne: "lay \<noteq> Tip" by (auto simp: tree_shape_def)
  have "tree_begin t = Some (Some (hd (addrs lay)))"
    using tree_begin_shape [OF assms(1)] ne by (simp add: leftmost_of_hd)
  with decrement_begin [OF assms(1) ne] show ?thesis by blast
qed

subsection \<open>A tree of three nodes\<close>

text \<open>
  With one dimension: \<^verbatim>\<open>insert((2), "two")\<close>, \<^verbatim>\<open>insert((1), "one")\<close>,
  \<^verbatim>\<open>insert((3), "three")\<close> into an empty tree. The root is at address 0, its left
  child at 1 and its right child at 2.
\<close>

definition three_nodes :: "(int, string) kdtree_mem option" where
  "three_nodes =
     Option.bind (mem_insert 1 [2] ''two'' KDTree_mem_default) (\<lambda>t.
     Option.bind (mem_insert 1 [1] ''one'' t) (mem_insert 1 [3] ''three''))"

lemma three_nodes_fields:
  "map_option (\<lambda>t. (memory t 0, memory t 1, memory t 2, root_ptr t, size_ctr t)) three_nodes =
   Some (Some \<lparr>node_key = [2], node_val = ''two'', parent = None, left = Some 1, right = Some 2\<rparr>,
         Some \<lparr>node_key = [1], node_val = ''one'', parent = Some 0, left = None, right = None\<rparr>,
         Some \<lparr>node_key = [3], node_val = ''three'', parent = Some 0, left = None, right = None\<rparr>,
         Some 0, 3)"
  by code_simp

lemma three_nodes_shape:
  "\<exists>t. three_nodes = Some t \<and> tree_shape t (Bin (Bin Tip 1 Tip) 0 (Bin Tip 2 Tip))"
proof -
  from three_nodes_fields obtain t where t: "three_nodes = Some t"
    and f: "memory t 0 = Some \<lparr>node_key = [2], node_val = ''two'', parent = None, left = Some 1, right = Some 2\<rparr>"
      "memory t 1 = Some \<lparr>node_key = [1], node_val = ''one'', parent = Some 0, left = None, right = None\<rparr>"
      "memory t 2 = Some \<lparr>node_key = [3], node_val = ''three'', parent = Some 0, left = None, right = None\<rparr>"
      "root_ptr t = Some 0" "size_ctr t = 3"
    by (cases three_nodes) auto
  have "tree_shape t (Bin (Bin Tip 1 Tip) 0 (Bin Tip 2 Tip))"
    by (simp add: tree_shape_def f [unfolded One_nat_def])
  with t show ?thesis by blast
qed

theorem forward_iteration_inorder_witness:
  "\<exists>t. three_nodes = Some t \<and> tree_shape t (Bin (Bin Tip 1 Tip) 0 (Bin Tip 2 Tip))
     \<and> tree_begin t = Some (Some 1) \<and> visit_all t (Some 1) = Some [1, 0, 2]"
proof -
  from three_nodes_shape obtain t where t: "three_nodes = Some t"
    and s: "tree_shape t (Bin (Bin Tip 1 Tip) 0 (Bin Tip 2 Tip))" by blast
  from forward_iteration_inorder [OF s] t s show ?thesis by auto
qed

theorem traversal_round_trip_witness:
  "\<exists>t. three_nodes = Some t \<and> tree_shape t (Bin (Bin Tip 1 Tip) 0 (Bin Tip 2 Tip))
     \<and> tree_begin t = Some (Some 1)
     \<and> walk 3 (increment t) (Some 1) = Some [Some 1, Some 0, Some 2, None]
     \<and> walk 3 (decrement t) None = Some [None, Some 2, Some 0, Some 1]"
proof -
  from three_nodes_shape obtain t where t: "three_nodes = Some t"
    and s: "tree_shape t (Bin (Bin Tip 1 Tip) 0 (Bin Tip 2 Tip))" by blast
  have n: "mem_size t = 3" using s by (simp add: tree_shape_def mem_size_def)
  from traversal_round_trip [OF s] obtain b fw bw where
    "tree_begin t = Some b" "walk (mem_size t) (increment t) b = Some (fw @ [tree_end])"
    "walk (mem_size t) (decrement t) tree_end = Some (tree_end # bw)"
    "fw = map Some (addrs (Bin (Bin Tip 1 Tip) 0 (Bin Tip 2 Tip)))" "bw = rev fw"
    "last (tree_end # bw) = b"
    by blast
  then show ?thesis using t s n by (auto simp: tree_end_def)
qed

theorem decrement_begin_unchanged_witness:
  "\<exists>t. three_nodes = Some t \<and> tree_shape t (Bin (Bin Tip 1 Tip) 0 (Bin Tip 2 Tip))
     \<and> root_ptr t \<noteq> None \<and> tree_begin t = Some (Some 1)
     \<and> decrement t (Some 1) = Some (Some 1)"
proof -
  from three_nodes_shape obtain t where t: "three_nodes = Some t"
    and s: "tree_shape t (Bin (Bin Tip 1 Tip) 0 (Bin Tip 2 Tip))" by blast
  have r: "root_ptr t \<noteq> None" using s by (simp add: tree_shape_def)
  have b: "tree_begin t = Some (Some 1)"
    using tree_begin_shape [OF s] by simp
  from decrement_begin_unchanged [OF s r] b t s r show ?thesis by auto
qed

text \<open>
  C2. \<^verbatim>\<open>erase(it)\<close> on a leaf that is not the root. In the tree of three nodes,
  \<^verbatim>\<open>find((3))\<close> is the right child of the root and its in-order successor is \<^verbatim>\<open>end()\<close>.
  \<^verbatim>\<open>erase\<close> of that cursor returns a cursor to the root, which holds \<open>(2)\<close>, the
  predecessor; \<^verbatim>\<open>size()\<close> becomes 2 and the node is deleted, but the pointer that
  \<^verbatim>\<open>erase<DIM>\<close> returns is dropped, so the \<^verbatim>\<open>right\<close> field of the root still holds the
  address of the deleted node, and the next \<^verbatim>\<open>find((3))\<close> reads deleted memory.
\<close>

theorem erase_cursor_leaf_dangling:
  "Option.bind three_nodes (\<lambda>t.
     Option.bind (mem_find 1 [3] t) (\<lambda>it.
     Option.bind (increment t it) (\<lambda>successor.
     Option.bind (erase_cursor 1 it t) (\<lambda>res.
       Some (it, successor, fst res, mem_size (snd res), memory (snd res) 2,
             map_option right (memory (snd res) 0), mem_find 1 [3] (snd res))))))
   = Some (Some 2, tree_end, Some 0, 2, None, Some (Some 2), None)"
  by code_simp

end
